theory Spec2Isabelle
  imports Main "HOL-Library.AList"
begin

section \<open>Conventions\<close>

text \<open>
  Two classes are verified: \<open>BlameGutter\<close> (blame-ui/lib/BlameGutter.js) and
  \<open>DiagnosticsProviderBase\<close> (the second source file). Both are glue over the Atom
  editor, so every call that leaves the class (editor, gutter, marker, DOM, notifications,
  analytics, event dispatcher, emitter) is recorded, in program order, in a log carried by
  the state. Handles returned by the host (markers, decorations, timers, subscriptions) are
  numbered from a counter, so that two handles are the same object iff they have the same
  number. Host calls are taken to return normally; the only fault that is modelled is the
  one the class itself can cause, the \<open>RangeError\<close> of \<open>String.prototype.repeat\<close> on a
  negative count. An emitter that has been disposed may refuse a registration, so what
  is said of registrations is said of instances that have not been disposed.

  A JavaScript string is a \<open>string\<close>; its elements stand for UTF-16 code units, which is
  what \<open>.length\<close> counts. A JavaScript \<open>Map\<close> is an association list in insertion order:
  \<open>get\<close> is \<open>map_of\<close>, \<open>set\<close> is \<open>AList.update\<close> (in place for a present key, at the end
  for a new one), \<open>delete\<close> is \<open>AList.delete\<close>.
\<close>

datatype js_error = RangeError

section \<open>BlameGutter.js\<close>

subsection \<open>Data\<close>

text \<open>\<open>BlameInfo\<close>: \<open>{author: string, changeset: ?string}\<close>.\<close>

record blame_info =
  author :: string
  changeset :: "string option"

type_synonym blame_for_editor = "(nat \<times> blame_info) list"

text \<open>
  The test \<open>if (blameInfo.changeset)\<close> of lines 164 and 236: \<open>null\<close>, \<open>undefined\<close> and the
  empty string are falsy, every other string is truthy.
\<close>

definition truthy :: "string option \<Rightarrow> bool" where
  "truthy c = (case c of None \<Rightarrow> False | Some s \<Rightarrow> s \<noteq> [])"

text \<open>The children of the \<open>div\<close> that \<open>_createGutterItem\<close> builds.\<close>

datatype dom_node =
  Span string "(string \<times> string) list" string
  | TextNode string

type_synonym html_element = "dom_node list"

record decoration_properties =
  prop_type :: string
  prop_gutterName :: string
  prop_class :: string
  prop_item :: html_element

text \<open>A decoration handle; \<open>getMarker()\<close> reads \<open>dec_marker\<close>.\<close>

record decoration =
  dec_id :: nat
  dec_marker :: nat

datatype host_call =
  AddGutter string
  | AddClickListener
  | MarkBufferRange nat nat
  | DecorateMarker nat decoration_properties decoration
  | SetProperties decoration decoration_properties
  | MarkerDestroy nat
  | GutterDestroy
  | SetGutterWidth string
  | AddInfo string
  | AddWarning string bool
  | OpenExternal string
  | Track string "string option" "string option"
  | SetTimeout nat nat
  | ClearTimeout "nat option"
  | GetBlameForEditor
  | GetUrlForRevision string
  | SpinnerAppend
  | SpinnerRemove

text \<open>
  The fields of the class, then what the model needs of its surroundings: whether the
  provider has \<open>getUrlForRevision\<close>, what \<open>editor.isDestroyed()\<close> and \<open>editor.getPath()\<close>
  answer, the constant \<open>BLAME_DECORATION_CLASS\<close> imported from \<open>./constants\<close> (a file that
  is not part of the sources at hand, so its value is a parameter), the handle counter
  and the log.
\<close>

record blame_gutter =
  isDestroyed :: bool
  changesetSpanClassName :: string
  bufferLineToDecoration :: "(nat \<times> decoration) list"
  gutterName :: string
  loadingSpinnerIsPending :: bool
  loadingSpinnerDiv :: bool
  loadingSpinnerTimeoutId :: "nat option"
  providerHasUrl :: bool
  editorIsDestroyed :: bool
  editorPath :: "string option"
  blameDecorationClass :: string
  nextHandle :: nat
  hostLog :: "host_call list"

definition BLAME_GUTTER_DEFAULT_WIDTH :: nat where
  "BLAME_GUTTER_DEFAULT_WIDTH = 50"

definition MS_TO_WAIT_BEFORE_SPINNER :: nat where
  "MS_TO_WAIT_BEFORE_SPINNER = 2000"

definition CHANGESET_CSS_CLASS :: string where
  "CHANGESET_CSS_CLASS = ''nuclide-blame-ui-hash''"

definition CLICKABLE_CHANGESET_CSS_CLASS :: string where
  "CLICKABLE_CHANGESET_CSS_CLASS = ''nuclide-blame-ui-hash-clickable''"

definition HG_CHANGESET_DATA_ATTRIBUTE :: string where
  "HG_CHANGESET_DATA_ATTRIBUTE = ''hgChangeset''"

definition NBSP :: char where
  "NBSP = CHR 0xA0"

subsection \<open>Numbers in template strings\<close>

text \<open>\<open>`${n}`\<close> for a non-negative integer \<open>n\<close>: its decimal digits.\<close>

definition digit_char :: "nat \<Rightarrow> char" where
  "digit_char d = char_of (48 + d)"

fun number_toString :: "nat \<Rightarrow> string" where
  "number_toString n =
     (if n < 10 then [digit_char n] else number_toString (n div 10) @ [digit_char (n mod 10)])"

declare number_toString.simps [simp del]

definition call :: "host_call list \<Rightarrow> blame_gutter \<Rightarrow> blame_gutter" where
  "call cs st = st\<lparr>hostLog := hostLog st @ cs\<rparr>"

subsection \<open>Gutter width (lines 186-194)\<close>

definition updateGutterWidthToPixelWidth :: "nat \<Rightarrow> blame_gutter \<Rightarrow> blame_gutter" where
  "updateGutterWidthToPixelWidth pixelWidth st =
     call [SetGutterWidth (number_toString pixelWidth @ ''px'')] st"

definition updateGutterWidthToCharacterLength :: "nat \<Rightarrow> blame_gutter \<Rightarrow> blame_gutter" where
  "updateGutterWidthToCharacterLength characters st =
     call [SetGutterWidth (number_toString characters @ ''ch'')] st"

subsection \<open>The longest label (lines 161-170)\<close>

definition blameLength :: "blame_info \<Rightarrow> nat" where
  "blameLength blameInfo =
     (if truthy (changeset blameInfo)
      then length (author blameInfo) + (length (the (changeset blameInfo)) + 1)
      else length (author blameInfo))"

fun longestBlame_loop :: "nat \<Rightarrow> blame_info list \<Rightarrow> nat" where
  "longestBlame_loop longestBlame [] = longestBlame"
| "longestBlame_loop longestBlame (blameInfo # rest) =
     longestBlame_loop
       (if blameLength blameInfo > longestBlame then blameLength blameInfo else longestBlame)
       rest"

definition longestBlame_of :: "blame_for_editor \<Rightarrow> nat" where
  "longestBlame_of blameForEditor = longestBlame_loop 0 (map snd blameForEditor)"

subsection \<open>\<open>_createGutterItem\<close> (lines 228-251)\<close>

text \<open>
  \<open>numSpaces\<close> is computed on JavaScript numbers, so it can be negative: an \<open>int\<close>.
  \<open>String.prototype.repeat\<close> (line 241, on the no-break space U+00A0) throws a \<open>RangeError\<close> on a negative count.
\<close>

definition numSpaces_of :: "blame_info \<Rightarrow> nat \<Rightarrow> int" where
  "numSpaces_of blameInfo longestBlame =
     int longestBlame - int (length (author blameInfo))
       - int (length (the (changeset blameInfo)))"

definition string_repeat :: "char \<Rightarrow> int \<Rightarrow> js_error + string" where
  "string_repeat c n = (if n < 0 then Inl RangeError else Inr (replicate (nat n) c))"

definition createGutterItem ::
  "string \<Rightarrow> blame_info \<Rightarrow> nat \<Rightarrow> js_error + html_element" where
  "createGutterItem spanClass blameInfo longestBlame =
     (let authorSpan = Span [] [] (author blameInfo) in
      if truthy (changeset blameInfo) then
        (case string_repeat NBSP (numSpaces_of blameInfo longestBlame) of
           Inl e \<Rightarrow> Inl e
         | Inr spaces \<Rightarrow>
             Inr [authorSpan, TextNode spaces,
                  Span spanClass
                    [(HG_CHANGESET_DATA_ATTRIBUTE, the (changeset blameInfo))]
                    (the (changeset blameInfo))])
      else Inr [authorSpan])"

subsection \<open>\<open>_setBlameLine\<close> and \<open>_removeBlameLine\<close> (lines 196-226)\<close>

text \<open>
  Lines 198-215, once the item exists: \<open>get\<close> the decoration of the line; if there is none,
  mark the line, decorate the marker and \<open>set\<close> the new decoration; otherwise hand the new
  properties to the decoration that is there. A decoration is an object, hence truthy.
\<close>

definition decorateLine :: "nat \<Rightarrow> html_element \<Rightarrow> blame_gutter \<Rightarrow> blame_gutter" where
  "decorateLine bufferLine item st =
     (let decorationProperties =
            \<lparr>prop_type = ''gutter'', prop_gutterName = gutterName st,
             prop_class = blameDecorationClass st, prop_item = item\<rparr>
      in case map_of (bufferLineToDecoration st) bufferLine of
           None \<Rightarrow>
             (let marker = nextHandle st;
                  decoration = \<lparr>dec_id = nextHandle st + 1, dec_marker = marker\<rparr>
              in call [MarkBufferRange bufferLine marker,
                       DecorateMarker marker decorationProperties decoration]
                   (st\<lparr>nextHandle := nextHandle st + 2,
                       bufferLineToDecoration :=
                         AList.update bufferLine decoration (bufferLineToDecoration st)\<rparr>))
         | Some decoration \<Rightarrow> call [SetProperties decoration decorationProperties] st)"

definition setBlameLine ::
  "nat \<Rightarrow> blame_info \<Rightarrow> nat \<Rightarrow> blame_gutter \<Rightarrow> js_error + blame_gutter" where
  "setBlameLine bufferLine blameInfo longestBlame st =
     (case createGutterItem (changesetSpanClassName st) blameInfo longestBlame of
        Inl e \<Rightarrow> Inl e
      | Inr item \<Rightarrow> Inr (decorateLine bufferLine item st))"

definition removeBlameLine :: "nat \<Rightarrow> blame_gutter \<Rightarrow> blame_gutter" where
  "removeBlameLine bufferLine st =
     (case map_of (bufferLineToDecoration st) bufferLine of
        None \<Rightarrow> st
      | Some blameDecoration \<Rightarrow>
          call [MarkerDestroy (dec_marker blameDecoration)]
            (st\<lparr>bufferLineToDecoration :=
                  AList.delete bufferLine (bufferLineToDecoration st)\<rparr>))"

subsection \<open>\<open>_updateBlame\<close> (lines 153-184)\<close>

definition NO_BLAME_MESSAGE :: string where
  "NO_BLAME_MESSAGE =
     ''Found no blame to display. Is this file empty or untracked?'' @ [CHR 0x0A] @
     ''          If not, check for errors in the Nuclide logs local to your repo.''"

text \<open>
  The loop of lines 172-175. \<open>allPreviousBlamedLines\<close> is a \<open>Set\<close>, kept as the list of
  its elements; \<open>delete\<close> is \<open>removeAll\<close>. An exception leaves the loop at once.
\<close>

fun setBlameLines ::
  "blame_for_editor \<Rightarrow> nat \<Rightarrow> blame_gutter \<times> nat list \<Rightarrow> js_error + blame_gutter \<times> nat list"
  where
  "setBlameLines [] longestBlame (st, allPreviousBlamedLines) =
     Inr (st, allPreviousBlamedLines)"
| "setBlameLines ((bufferLine, blameInfo) # rest) longestBlame (st, allPreviousBlamedLines) =
     (case setBlameLine bufferLine blameInfo longestBlame st of
        Inl e \<Rightarrow> Inl e
      | Inr st' \<Rightarrow>
          setBlameLines rest longestBlame (st', removeAll bufferLine allPreviousBlamedLines))"

text \<open>The loop of lines 178-180.\<close>

fun removeBlameLines :: "nat list \<Rightarrow> blame_gutter \<Rightarrow> blame_gutter" where
  "removeBlameLines [] st = st"
| "removeBlameLines (oldLine # rest) st = removeBlameLines rest (removeBlameLine oldLine st)"

text \<open>
  The decorator \<open>@trackTiming\<close> only measures the call; it is left out. The keys of a
  \<open>Map\<close> are distinct, so the \<open>Set\<close> built from them at line 159 lists them as they are.
\<close>

definition updateBlame :: "blame_for_editor \<Rightarrow> blame_gutter \<Rightarrow> js_error + blame_gutter" where
  "updateBlame blameForEditor st =
     (let st1 = (if length blameForEditor = 0 then call [AddInfo NO_BLAME_MESSAGE] st else st);
          allPreviousBlamedLines = map fst (bufferLineToDecoration st1);
          longestBlame = longestBlame_of blameForEditor
      in case setBlameLines blameForEditor longestBlame (st1, allPreviousBlamedLines) of
           Inl e \<Rightarrow> Inl e
         | Inr (st2, outdated) \<Rightarrow>
             Inr (updateGutterWidthToCharacterLength longestBlame
                    (removeBlameLines outdated st2)))"

subsection \<open>The loading spinner (lines 113-136)\<close>

definition addLoadingSpinner :: "blame_gutter \<Rightarrow> blame_gutter" where
  "addLoadingSpinner st =
     (if loadingSpinnerIsPending st then st
      else call [SetTimeout (nextHandle st) MS_TO_WAIT_BEFORE_SPINNER]
             (st\<lparr>loadingSpinnerIsPending := True,
                 loadingSpinnerTimeoutId := Some (nextHandle st),
                 nextHandle := nextHandle st + 1\<rparr>))"

text \<open>The callback given to \<open>setTimeout\<close> at line 118, when the timer fires.\<close>

definition loadingSpinnerTimeout :: "blame_gutter \<Rightarrow> blame_gutter" where
  "loadingSpinnerTimeout st =
     call [SpinnerAppend] (st\<lparr>loadingSpinnerIsPending := False, loadingSpinnerDiv := True\<rparr>)"

definition cleanUpLoadingSpinner :: "blame_gutter \<Rightarrow> blame_gutter" where
  "cleanUpLoadingSpinner st =
     (let st1 = (if loadingSpinnerIsPending st
                 then (call [ClearTimeout (loadingSpinnerTimeoutId st)] st)
                        \<lparr>loadingSpinnerIsPending := False\<rparr>
                 else st)
      in if loadingSpinnerDiv st1
         then call [SpinnerRemove] (st1\<lparr>loadingSpinnerDiv := False\<rparr>)
         else st1)"

subsection \<open>\<open>_fetchAndDisplayBlame\<close> (lines 97-111)\<close>

text \<open>
  An \<open>async\<close> function runs up to its \<open>await\<close>, and its continuation runs later, on the
  same thread, with the value the promise resolved to. The two halves are two functions.
\<close>

definition fetchAndDisplayBlame_start :: "blame_gutter \<Rightarrow> blame_gutter" where
  "fetchAndDisplayBlame_start st = call [GetBlameForEditor] (addLoadingSpinner st)"

definition fetchAndDisplayBlame_resolved ::
  "blame_for_editor \<Rightarrow> blame_gutter \<Rightarrow> js_error + blame_gutter" where
  "fetchAndDisplayBlame_resolved newBlame st =
     (if isDestroyed st then Inr st
      else updateBlame newBlame (cleanUpLoadingSpinner st))"

subsection \<open>\<open>destroy\<close> (lines 138-149)\<close>

definition destroy :: "blame_gutter \<Rightarrow> blame_gutter" where
  "destroy st =
     (let st1 = cleanUpLoadingSpinner (st\<lparr>isDestroyed := True\<rparr>);
          st2 = (if \<not> editorIsDestroyed st1 then call [GutterDestroy] st1 else st1)
      in call (map (\<lambda>decoration. MarkerDestroy (dec_marker decoration))
                 (map snd (bufferLineToDecoration st2))) st2)"

subsection \<open>\<open>_onClick\<close> (lines 72-95)\<close>

text \<open>
  The event's target is absent or an element, of which only the \<open>dataset\<close> is read.
  \<open>url\<close> is what the promise of \<open>getUrlForRevision\<close> resolves to. The continuation reads
  nothing that another handler writes, so both halves are one function.
\<close>

definition onClick ::
  "(string \<times> string) list option \<Rightarrow> string option \<Rightarrow> blame_gutter \<Rightarrow> blame_gutter" where
  "onClick target url st =
     (case target of
        None \<Rightarrow> st
      | Some dataset \<Rightarrow>
          (let changeset = map_of dataset HG_CHANGESET_DATA_ATTRIBUTE in
           if \<not> truthy changeset then st
           else
             (let st1 = call [GetUrlForRevision (the changeset)] st;
                  st2 = (if truthy url then call [OpenExternal (the url)] st1
                         else call [AddWarning (''No URL found for '' @ the changeset @ ''.'')
                                      True] st1)
              in call [Track ''blame-gutter-click-revision'' (editorPath st2) url] st2)))"

subsection \<open>The constructor (lines 44-66)\<close>

definition BlameGutter_new ::
  "string \<Rightarrow> bool \<Rightarrow> bool \<Rightarrow> string option \<Rightarrow> string \<Rightarrow> nat \<Rightarrow> blame_gutter" where
  "BlameGutter_new name hasUrl editorDestroyed path decorationClass handle =
     (let st0 = \<lparr>isDestroyed = False,
                 changesetSpanClassName = CHANGESET_CSS_CLASS,
                 bufferLineToDecoration = [],
                 gutterName = name,
                 loadingSpinnerIsPending = False,
                 loadingSpinnerDiv = False,
                 loadingSpinnerTimeoutId = None,
                 providerHasUrl = hasUrl,
                 editorIsDestroyed = editorDestroyed,
                 editorPath = path,
                 blameDecorationClass = decorationClass,
                 nextHandle = handle,
                 hostLog = [AddGutter name]\<rparr>;
          st1 = updateGutterWidthToPixelWidth BLAME_GUTTER_DEFAULT_WIDTH st0;
          st2 = (if providerHasUrl st1
                 then call [AddClickListener]
                        (st1\<lparr>changesetSpanClassName :=
                              changesetSpanClassName st1 @ '' '' @ CLICKABLE_CHANGESET_CSS_CLASS\<rparr>)
                 else st1)
      in fetchAndDisplayBlame_start st2)"

subsection \<open>Reading the log\<close>

text \<open>What one call, or one run of calls, added to the log.\<close>

definition new_calls :: "blame_gutter \<Rightarrow> blame_gutter \<Rightarrow> host_call list" where
  "new_calls st st' = drop (length (hostLog st)) (hostLog st')"

text \<open>The log is only ever appended to: the later log begins with the earlier one.\<close>

definition log_grows :: "blame_gutter \<Rightarrow> blame_gutter \<Rightarrow> bool" where
  "log_grows st st' = (hostLog st' = hostLog st @ new_calls st st')"

fun created_lines :: "host_call list \<Rightarrow> nat list" where
  "created_lines [] = []"
| "created_lines (MarkBufferRange l m # cs) = l # created_lines cs"
| "created_lines (c # cs) = created_lines cs"

fun created_decorations :: "host_call list \<Rightarrow> decoration list" where
  "created_decorations [] = []"
| "created_decorations (DecorateMarker m p d # cs) = d # created_decorations cs"
| "created_decorations (c # cs) = created_decorations cs"

fun updated_decorations :: "host_call list \<Rightarrow> decoration list" where
  "updated_decorations [] = []"
| "updated_decorations (SetProperties d p # cs) = d # updated_decorations cs"
| "updated_decorations (c # cs) = updated_decorations cs"

fun destroyed_markers :: "host_call list \<Rightarrow> nat list" where
  "destroyed_markers [] = []"
| "destroyed_markers (MarkerDestroy m # cs) = m # destroyed_markers cs"
| "destroyed_markers (c # cs) = destroyed_markers cs"

fun gutter_widths :: "host_call list \<Rightarrow> string list" where
  "gutter_widths [] = []"
| "gutter_widths (SetGutterWidth w # cs) = w # gutter_widths cs"
| "gutter_widths (c # cs) = gutter_widths cs"

fun info_notices :: "host_call list \<Rightarrow> string list" where
  "info_notices [] = []"
| "info_notices (AddInfo msg # cs) = msg # info_notices cs"
| "info_notices (c # cs) = info_notices cs"

fun warning_notices :: "host_call list \<Rightarrow> (string \<times> bool) list" where
  "warning_notices [] = []"
| "warning_notices (AddWarning msg dismissable # cs) = (msg, dismissable) # warning_notices cs"
| "warning_notices (c # cs) = warning_notices cs"

fun navigations :: "host_call list \<Rightarrow> string list" where
  "navigations [] = []"
| "navigations (OpenExternal u # cs) = u # navigations cs"
| "navigations (c # cs) = navigations cs"

fun gutter_destroys :: "host_call list \<Rightarrow> nat" where
  "gutter_destroys [] = 0"
| "gutter_destroys (GutterDestroy # cs) = Suc (gutter_destroys cs)"
| "gutter_destroys (c # cs) = gutter_destroys cs"

text \<open>
  The representation invariant of the instance: the keys of the \<open>Map\<close> are distinct, no two
  of its decorations share a marker, and every handle in it was once given out.
\<close>

definition gutter_inv :: "blame_gutter \<Rightarrow> bool" where
  "gutter_inv st =
     (distinct (map fst (bufferLineToDecoration st)) \<and>
      distinct (map (dec_marker \<circ> snd) (bufferLineToDecoration st)) \<and>
      list_all (\<lambda>(l, d). dec_marker d < nextHandle st \<and> dec_id d < nextHandle st)
        (bufferLineToDecoration st))"

section \<open>DiagnosticsProviderBase\<close>

subsection \<open>Data\<close>

text \<open>
  Functions of the client (the three optional callbacks of the options, the subscribers)
  are opaque: each is a number, and calling one of the two hooks is a log entry. \<open>callbackOrNoop\<close> (lines
  136-138) turns an absent callback into the function that does nothing.
\<close>

datatype client_fn = Noop | Bound nat

definition callbackOrNoop :: "nat option \<Rightarrow> client_fn" where
  "callbackOrNoop callback = (case callback of Some f \<Rightarrow> Bound f | None \<Rightarrow> Noop)"

definition UPDATE_EVENT :: string where
  "UPDATE_EVENT = ''update''"

definition INVALIDATE_EVENT :: string where
  "INVALIDATE_EVENT = ''invalidate''"

text \<open>
  The calls that leave the class. The four subscriptions of the dispatcher and
  \<open>Emitter.on\<close> return a disposable, the last argument here.
\<close>

datatype provider_call =
  OnAnyFileChange client_fn nat
  | OnFileChange "string list" client_fn nat
  | OnAnyFileSave client_fn nat
  | OnFileSave "string list" client_fn nat
  | SubscriptionDispose nat
  | EmitterOn string nat nat
  | EmitterEmit string nat
  | EmitterDispose
  | DisposablesDispose
  | InvokeNewUpdateSubscriber client_fn nat
  | InvokeNewInvalidateSubscriber client_fn nat

record provider_options =
  opt_grammarScopes :: "string list option"
  opt_enableForAllGrammars :: "bool option"
  opt_shouldRunOnTheFly :: "bool option"
  opt_onTextEditorEvent :: "nat option"
  opt_onNewUpdateSubscriber :: "nat option"
  opt_onNewInvalidateSubscriber :: "nat option"

record provider_base =
  textEventCallback :: client_fn
  newUpdateSubscriberCallback :: client_fn
  newInvalidateSubscriberCallback :: client_fn
  grammarScopes :: "string list"
  allGrammarScopes :: bool
  currentEventSubscription :: "nat option"
  providerNextHandle :: nat
  providerLog :: "provider_call list"

text \<open>\<open>Boolean(x)\<close> for an optional boolean, and \<open>new Set(xs)\<close> for an optional list.\<close>

definition js_Boolean :: "bool option \<Rightarrow> bool" where
  "js_Boolean b = (case b of None \<Rightarrow> False | Some v \<Rightarrow> v)"

definition js_Set_add :: "'a list \<Rightarrow> 'a \<Rightarrow> 'a list" where
  "js_Set_add s x = (if x \<in> set s then s else s @ [x])"

definition js_Set :: "'a list option \<Rightarrow> 'a list" where
  "js_Set xs = (case xs of None \<Rightarrow> [] | Some ys \<Rightarrow> foldl js_Set_add [] ys)"

definition provider_call :: "provider_call list \<Rightarrow> provider_base \<Rightarrow> provider_base" where
  "provider_call cs st = st\<lparr>providerLog := providerLog st @ cs\<rparr>"

subsection \<open>The event subscription (lines 65-100)\<close>

definition disposeEventSubscription :: "provider_base \<Rightarrow> provider_base" where
  "disposeEventSubscription st =
     (case currentEventSubscription st of
        None \<Rightarrow> st
      | Some subscription \<Rightarrow>
          (provider_call [SubscriptionDispose subscription] st)
            \<lparr>currentEventSubscription := None\<rparr>)"

definition subscribeToTextEditorEvent :: "bool \<Rightarrow> provider_base \<Rightarrow> provider_base" where
  "subscribeToTextEditorEvent shouldRunOnTheFly st0 =
     (let st = disposeEventSubscription st0;
          subscription = providerNextHandle st;
          request =
            (if shouldRunOnTheFly then
               (if allGrammarScopes st
                then OnAnyFileChange (textEventCallback st) subscription
                else OnFileChange (grammarScopes st) (textEventCallback st) subscription)
             else
               (if allGrammarScopes st
                then OnAnyFileSave (textEventCallback st) subscription
                else OnFileSave (grammarScopes st) (textEventCallback st) subscription))
      in (provider_call [request] st)
           \<lparr>providerNextHandle := subscription + 1,
            currentEventSubscription := Some subscription\<rparr>)"

definition setRunOnTheFly :: "bool \<Rightarrow> provider_base \<Rightarrow> provider_base" where
  "setRunOnTheFly runOnTheFly st = subscribeToTextEditorEvent runOnTheFly st"

definition dispose :: "provider_base \<Rightarrow> provider_base" where
  "dispose st = disposeEventSubscription (provider_call [EmitterDispose, DisposablesDispose] st)"

subsection \<open>The constructor (lines 41-56)\<close>

definition DiagnosticsProviderBase_new :: "provider_options \<Rightarrow> nat \<Rightarrow> provider_base" where
  "DiagnosticsProviderBase_new options handle =
     subscribeToTextEditorEvent (js_Boolean (opt_shouldRunOnTheFly options))
       \<lparr>textEventCallback = callbackOrNoop (opt_onTextEditorEvent options),
        newUpdateSubscriberCallback = callbackOrNoop (opt_onNewUpdateSubscriber options),
        newInvalidateSubscriberCallback = callbackOrNoop (opt_onNewInvalidateSubscriber options),
        grammarScopes = js_Set (opt_grammarScopes options),
        allGrammarScopes = js_Boolean (opt_enableForAllGrammars options),
        currentEventSubscription = None,
        providerNextHandle = handle,
        providerLog = []\<rparr>"

subsection \<open>Publishing and subscribing (lines 110-132)\<close>

definition publishMessageUpdate :: "nat \<Rightarrow> provider_base \<Rightarrow> provider_base" where
  "publishMessageUpdate update st = provider_call [EmitterEmit UPDATE_EVENT update] st"

definition publishMessageInvalidation :: "nat \<Rightarrow> provider_base \<Rightarrow> provider_base" where
  "publishMessageInvalidation message st =
     provider_call [EmitterEmit INVALIDATE_EVENT message] st"

definition onMessageUpdate :: "nat \<Rightarrow> provider_base \<Rightarrow> nat \<times> provider_base" where
  "onMessageUpdate callback st =
     (let disposable = providerNextHandle st;
          st1 = (provider_call [EmitterOn UPDATE_EVENT callback disposable] st)
                  \<lparr>providerNextHandle := disposable + 1\<rparr>;
          st2 = provider_call [InvokeNewUpdateSubscriber (newUpdateSubscriberCallback st1) callback] st1
      in (disposable, st2))"

definition onMessageInvalidation :: "nat \<Rightarrow> provider_base \<Rightarrow> nat \<times> provider_base" where
  "onMessageInvalidation callback st =
     (let disposable = providerNextHandle st;
          st1 = (provider_call [EmitterOn INVALIDATE_EVENT callback disposable] st)
                  \<lparr>providerNextHandle := disposable + 1\<rparr>;
          st2 = provider_call
                  [InvokeNewInvalidateSubscriber (newInvalidateSubscriberCallback st1) callback] st1
      in (disposable, st2))"

subsection \<open>Runs of calls on one instance\<close>

datatype provider_op =
  SetRunOnTheFly bool
  | Dispose
  | PublishMessageUpdate nat
  | PublishMessageInvalidation nat
  | OnMessageUpdate nat
  | OnMessageInvalidation nat

fun provider_step :: "provider_base \<Rightarrow> provider_op \<Rightarrow> provider_base" where
  "provider_step st (SetRunOnTheFly b) = setRunOnTheFly b st"
| "provider_step st Dispose = dispose st"
| "provider_step st (PublishMessageUpdate u) = publishMessageUpdate u st"
| "provider_step st (PublishMessageInvalidation m) = publishMessageInvalidation m st"
| "provider_step st (OnMessageUpdate cb) = snd (onMessageUpdate cb st)"
| "provider_step st (OnMessageInvalidation cb) = snd (onMessageInvalidation cb st)"

definition provider_run :: "provider_base \<Rightarrow> provider_op list \<Rightarrow> provider_base" where
  "provider_run st ops = foldl provider_step st ops"

subsection \<open>Reading the log\<close>

text \<open>
  The subscribers that the hook of each channel was called with, in order, and the
  callbacks registered with \<open>Emitter.on\<close> for an event, in order.
\<close>

fun update_hook_calls :: "provider_call list \<Rightarrow> nat list" where
  "update_hook_calls [] = []"
| "update_hook_calls (InvokeNewUpdateSubscriber f cb # cs) = cb # update_hook_calls cs"
| "update_hook_calls (c # cs) = update_hook_calls cs"

fun invalidate_hook_calls :: "provider_call list \<Rightarrow> nat list" where
  "invalidate_hook_calls [] = []"
| "invalidate_hook_calls (InvokeNewInvalidateSubscriber f cb # cs) =
     cb # invalidate_hook_calls cs"
| "invalidate_hook_calls (c # cs) = invalidate_hook_calls cs"

fun registrations :: "string \<Rightarrow> provider_call list \<Rightarrow> nat list" where
  "registrations ev [] = []"
| "registrations ev (EmitterOn ev' cb d # cs) =
     (if ev' = ev then cb # registrations ev cs else registrations ev cs)"
| "registrations ev (c # cs) = registrations ev cs"

text \<open>The event subscriptions that are live after a log: subscribed to and not disposed.\<close>

fun subscription_step :: "nat list \<Rightarrow> provider_call \<Rightarrow> nat list" where
  "subscription_step live (OnAnyFileChange f s) = live @ [s]"
| "subscription_step live (OnFileChange g f s) = live @ [s]"
| "subscription_step live (OnAnyFileSave f s) = live @ [s]"
| "subscription_step live (OnFileSave g f s) = live @ [s]"
| "subscription_step live (SubscriptionDispose s) = removeAll s live"
| "subscription_step live c = live"

definition active_subscriptions :: "provider_call list \<Rightarrow> nat list" where
  "active_subscriptions cs = foldl subscription_step [] cs"

fun subscription_disposals :: "provider_call list \<Rightarrow> nat list" where
  "subscription_disposals [] = []"
| "subscription_disposals (SubscriptionDispose s # cs) = s # subscription_disposals cs"
| "subscription_disposals (c # cs) = subscription_disposals cs"

fun subscriptions_made :: "provider_call list \<Rightarrow> nat list" where
  "subscriptions_made [] = []"
| "subscriptions_made (OnAnyFileChange f s # cs) = s # subscriptions_made cs"
| "subscriptions_made (OnFileChange g f s # cs) = s # subscriptions_made cs"
| "subscriptions_made (OnAnyFileSave f s # cs) = s # subscriptions_made cs"
| "subscriptions_made (OnFileSave g f s # cs) = s # subscriptions_made cs"
| "subscriptions_made (c # cs) = subscriptions_made cs"

text \<open>
  What the proofs carry along a run: the live subscriptions are the one the instance
  holds, at no point of the log were two live, and every subscription made has been
  disposed but the one held.
\<close>

definition current_list :: "provider_base \<Rightarrow> nat list" where
  "current_list st = (case currentEventSubscription st of None \<Rightarrow> [] | Some s \<Rightarrow> [s])"

definition no_overlap :: "provider_call list \<Rightarrow> bool" where
  "no_overlap cs = (\<forall>n. length (active_subscriptions (take n cs)) \<le> 1)"

definition subscription_inv :: "provider_base \<Rightarrow> bool" where
  "subscription_inv st =
     (active_subscriptions (providerLog st) = current_list st \<and>
      no_overlap (providerLog st) \<and>
      subscriptions_made (providerLog st) =
        subscription_disposals (providerLog st) @ current_list st)"

section \<open>Example inputs\<close>

text \<open>
  The two entries of the width example, and the instance that a provider with
  \<open>getUrlForRevision\<close> leaves behind once its first fetch resolved to one line by
  \<open>alice\<close> (lemma \<open>example_gutter_reached\<close>).
\<close>

definition alice :: blame_info where
  "alice = \<lparr>author = ''alice'', changeset = Some ''abc123''\<rparr>"

definition bob :: blame_info where
  "bob = \<lparr>author = ''bob'', changeset = None\<rparr>"

definition example_gutter :: blame_gutter where
  "example_gutter =
     \<lparr>isDestroyed = False,
      changesetSpanClassName = ''nuclide-blame-ui-hash nuclide-blame-ui-hash-clickable'',
      bufferLineToDecoration = [(0, \<lparr>dec_id = 2, dec_marker = 1\<rparr>)],
      gutterName = ''blame'',
      loadingSpinnerIsPending = False,
      loadingSpinnerDiv = False,
      loadingSpinnerTimeoutId = Some 0,
      providerHasUrl = True,
      editorIsDestroyed = False,
      editorPath = Some ''a.js'',
      blameDecorationClass = ''blame-decoration'',
      nextHandle = 3,
      hostLog =
        [AddGutter ''blame'', SetGutterWidth ''50px'', AddClickListener,
         SetTimeout 0 2000, GetBlameForEditor, ClearTimeout (Some 0),
         MarkBufferRange 0 1,
         DecorateMarker 1
           \<lparr>prop_type = ''gutter'', prop_gutterName = ''blame'',
            prop_class = ''blame-decoration'',
            prop_item =
              [Span [] [] ''alice'', TextNode [CHR 0xA0],
               Span ''nuclide-blame-ui-hash nuclide-blame-ui-hash-clickable''
                 [(''hgChangeset'', ''abc123'')] ''abc123'']\<rparr>
           \<lparr>dec_id = 2, dec_marker = 1\<rparr>,
         SetGutterWidth ''12ch'']\<rparr>"

text \<open>Options with all three callbacks, for a provider scoped to one grammar.\<close>

definition example_options :: provider_options where
  "example_options =
     \<lparr>opt_grammarScopes = Some [''source.js''],
      opt_enableForAllGrammars = None,
      opt_shouldRunOnTheFly = Some True,
      opt_onTextEditorEvent = Some 5,
      opt_onNewUpdateSubscriber = Some 6,
      opt_onNewInvalidateSubscriber = Some 7\<rparr>"


section \<open>Proofs: the blame gutter\<close>

subsection \<open>The longest label\<close>

lemma longestBlame_loop_Max:
  "longestBlame_loop acc xs = Max (insert acc (blameLength ` set xs))"
proof (induction xs arbitrary: acc)
  case Nil
  then show ?case by simp
next
  case (Cons x xs)
  have fin: "finite (blameLength ` set xs)" by simp
  have step: "longestBlame_loop acc (x # xs) = longestBlame_loop (max acc (blameLength x)) xs"
    by (auto simp: max_def)
  have "Max (insert (max acc (blameLength x)) (blameLength ` set xs))
        = Max (insert acc (insert (blameLength x) (blameLength ` set xs)))"
  proof (cases "set xs = {}")
    case True
    then show ?thesis by (simp add: max.commute)
  next
    case False
    then have ne: "blameLength ` set xs \<noteq> {}" by simp
    show ?thesis using fin ne by (simp add: max.assoc)
  qed
  then show ?case using Cons.IH [of "max acc (blameLength x)"] step
    by simp
qed

lemma blameLength_le_longest:
  assumes "(l, i) \<in> set S"
  shows "blameLength i \<le> longestBlame_of S"
proof -
  have "blameLength i \<in> insert 0 (blameLength ` set (map snd S))"
    using assms by force
  then show ?thesis
    unfolding longestBlame_of_def longestBlame_loop_Max
    by (intro Max_ge) auto
qed

subsection \<open>The log\<close>

lemma call_fields [simp]:
  "hostLog (call cs st) = hostLog st @ cs"
  "bufferLineToDecoration (call cs st) = bufferLineToDecoration st"
  "nextHandle (call cs st) = nextHandle st"
  "isDestroyed (call cs st) = isDestroyed st"
  "changesetSpanClassName (call cs st) = changesetSpanClassName st"
  "editorIsDestroyed (call cs st) = editorIsDestroyed st"
  "editorPath (call cs st) = editorPath st"
  "loadingSpinnerIsPending (call cs st) = loadingSpinnerIsPending st"
  "loadingSpinnerDiv (call cs st) = loadingSpinnerDiv st"
  by (simp_all add: call_def)

lemma log_growsI: "hostLog st' = hostLog st @ cs \<Longrightarrow> log_grows st st' \<and> new_calls st st' = cs"
  by (simp add: log_grows_def new_calls_def)

lemma log_grows_refl: "log_grows st st" "new_calls st st = []"
  by (simp_all add: log_grows_def new_calls_def)

lemma log_grows_trans:
  assumes "log_grows a b" and "log_grows b c"
  shows "log_grows a c \<and> new_calls a c = new_calls a b @ new_calls b c"
proof -
  have "hostLog c = hostLog a @ (new_calls a b @ new_calls b c)"
    using assms by (simp add: log_grows_def)
  then show ?thesis by (rule log_growsI)
qed

lemma created_lines_append: "created_lines (xs @ ys) = created_lines xs @ created_lines ys"
  by (induction xs rule: created_lines.induct) simp_all

lemma created_decorations_append:
  "created_decorations (xs @ ys) = created_decorations xs @ created_decorations ys"
  by (induction xs rule: created_decorations.induct) simp_all

lemma updated_decorations_append:
  "updated_decorations (xs @ ys) = updated_decorations xs @ updated_decorations ys"
  by (induction xs rule: updated_decorations.induct) simp_all

lemma destroyed_markers_append:
  "destroyed_markers (xs @ ys) = destroyed_markers xs @ destroyed_markers ys"
  by (induction xs rule: destroyed_markers.induct) simp_all

lemma gutter_widths_append: "gutter_widths (xs @ ys) = gutter_widths xs @ gutter_widths ys"
  by (induction xs rule: gutter_widths.induct) simp_all

lemma info_notices_append: "info_notices (xs @ ys) = info_notices xs @ info_notices ys"
  by (induction xs rule: info_notices.induct) simp_all

lemmas reads_append = created_lines_append created_decorations_append
  updated_decorations_append destroyed_markers_append gutter_widths_append info_notices_append

lemma decorateLine_new:
  "map_of (bufferLineToDecoration st) l = None \<Longrightarrow>
   hostLog (decorateLine l item st) =
     hostLog st @ [MarkBufferRange l (nextHandle st),
        DecorateMarker (nextHandle st)
          \<lparr>prop_type = ''gutter'', prop_gutterName = gutterName st,
           prop_class = blameDecorationClass st, prop_item = item\<rparr>
          \<lparr>dec_id = nextHandle st + 1, dec_marker = nextHandle st\<rparr>] \<and>
   bufferLineToDecoration (decorateLine l item st) =
     AList.update l \<lparr>dec_id = nextHandle st + 1, dec_marker = nextHandle st\<rparr>
       (bufferLineToDecoration st) \<and>
   nextHandle (decorateLine l item st) = nextHandle st + 2"
  by (simp add: decorateLine_def Let_def)

lemma decorateLine_old:
  "map_of (bufferLineToDecoration st) l = Some d \<Longrightarrow>
   hostLog (decorateLine l item st) =
     hostLog st @ [SetProperties d
          \<lparr>prop_type = ''gutter'', prop_gutterName = gutterName st,
           prop_class = blameDecorationClass st, prop_item = item\<rparr>] \<and>
   bufferLineToDecoration (decorateLine l item st) = bufferLineToDecoration st \<and>
   nextHandle (decorateLine l item st) = nextHandle st"
  by (simp add: decorateLine_def Let_def)

subsection \<open>One line of the snapshot\<close>

lemma setBlameLine_cases:
  assumes "setBlameLine l i L st = Inr st'"
  shows "(map_of (bufferLineToDecoration st) l = None \<and>
          bufferLineToDecoration st' =
            AList.update l \<lparr>dec_id = nextHandle st + 1, dec_marker = nextHandle st\<rparr>
              (bufferLineToDecoration st) \<and>
          nextHandle st' = nextHandle st + 2 \<and>
          (\<exists>p. hostLog st' = hostLog st @ [MarkBufferRange l (nextHandle st),
             DecorateMarker (nextHandle st) p
               \<lparr>dec_id = nextHandle st + 1, dec_marker = nextHandle st\<rparr>])) \<or>
         (\<exists>d. map_of (bufferLineToDecoration st) l = Some d \<and>
          bufferLineToDecoration st' = bufferLineToDecoration st \<and>
          nextHandle st' = nextHandle st \<and>
          (\<exists>p. hostLog st' = hostLog st @ [SetProperties d p]))"
proof -
  from assms obtain item where st': "st' = decorateLine l item st"
    by (auto simp: setBlameLine_def split: sum.splits)
  show ?thesis
  proof (cases "map_of (bufferLineToDecoration st) l")
    case None
    then show ?thesis using decorateLine_new [OF None, of item] st' by auto
  next
    case (Some d)
    then show ?thesis using decorateLine_old [OF Some, of item] st' by auto
  qed
qed

text \<open>What one iteration does, through the readers of the log.\<close>

lemma setBlameLine_fresh:
  assumes "setBlameLine l i L st = Inr st'"
    and "map_of (bufferLineToDecoration st) l = None"
  shows "log_grows st st'"
    and "created_lines (new_calls st st') = [l]"
    and "created_decorations (new_calls st st') =
           [\<lparr>dec_id = nextHandle st + 1, dec_marker = nextHandle st\<rparr>]"
    and "updated_decorations (new_calls st st') = []"
    and "destroyed_markers (new_calls st st') = []"
    and "gutter_widths (new_calls st st') = []"
    and "info_notices (new_calls st st') = []"
    and "bufferLineToDecoration st' =
           AList.update l \<lparr>dec_id = nextHandle st + 1, dec_marker = nextHandle st\<rparr>
             (bufferLineToDecoration st)"
    and "nextHandle st' = nextHandle st + 2"
proof -
  from setBlameLine_cases [OF assms(1)] assms(2)
  obtain p where m: "bufferLineToDecoration st' =
            AList.update l \<lparr>dec_id = nextHandle st + 1, dec_marker = nextHandle st\<rparr>
              (bufferLineToDecoration st)"
    and h: "nextHandle st' = nextHandle st + 2"
    and lg: "hostLog st' = hostLog st @ [MarkBufferRange l (nextHandle st),
             DecorateMarker (nextHandle st) p
               \<lparr>dec_id = nextHandle st + 1, dec_marker = nextHandle st\<rparr>]"
    by auto
  note g = log_growsI [OF lg]
  show "log_grows st st'" using g by simp
  show "created_lines (new_calls st st') = [l]" using g by simp
  show "created_decorations (new_calls st st') =
           [\<lparr>dec_id = nextHandle st + 1, dec_marker = nextHandle st\<rparr>]" using g by simp
  show "updated_decorations (new_calls st st') = []" using g by simp
  show "destroyed_markers (new_calls st st') = []" using g by simp
  show "gutter_widths (new_calls st st') = []" using g by simp
  show "info_notices (new_calls st st') = []" using g by simp
  show "bufferLineToDecoration st' =
           AList.update l \<lparr>dec_id = nextHandle st + 1, dec_marker = nextHandle st\<rparr>
             (bufferLineToDecoration st)" by (rule m)
  show "nextHandle st' = nextHandle st + 2" by (rule h)
qed

lemma setBlameLine_present:
  assumes "setBlameLine l i L st = Inr st'"
    and "map_of (bufferLineToDecoration st) l = Some d"
  shows "log_grows st st'"
    and "created_lines (new_calls st st') = []"
    and "created_decorations (new_calls st st') = []"
    and "updated_decorations (new_calls st st') = [d]"
    and "destroyed_markers (new_calls st st') = []"
    and "gutter_widths (new_calls st st') = []"
    and "info_notices (new_calls st st') = []"
    and "bufferLineToDecoration st' = bufferLineToDecoration st"
    and "nextHandle st' = nextHandle st"
proof -
  from setBlameLine_cases [OF assms(1)] assms(2)
  obtain p where m: "bufferLineToDecoration st' = bufferLineToDecoration st"
    and h: "nextHandle st' = nextHandle st"
    and lg: "hostLog st' = hostLog st @ [SetProperties d p]"
    by auto
  note g = log_growsI [OF lg]
  show "log_grows st st'" using g by simp
  show "created_lines (new_calls st st') = []" using g by simp
  show "created_decorations (new_calls st st') = []" using g by simp
  show "updated_decorations (new_calls st st') = [d]" using g by simp
  show "destroyed_markers (new_calls st st') = []" using g by simp
  show "gutter_widths (new_calls st st') = []" using g by simp
  show "info_notices (new_calls st st') = []" using g by simp
  show "bufferLineToDecoration st' = bufferLineToDecoration st" by (rule m)
  show "nextHandle st' = nextHandle st" by (rule h)
qed

subsection \<open>The loop over the snapshot\<close>

lemma key_iff: "(k \<in> fst ` set m) = (map_of m k \<noteq> None)"
  by (simp add: map_of_eq_None_iff)

lemma setBlameLines_prev:
  "setBlameLines S L (st, prev) = Inr (st', prev') \<Longrightarrow>
   prev' = filter (\<lambda>l. l \<notin> fst ` set S) prev"
proof (induction S arbitrary: st prev)
  case Nil
  then show ?case by simp
next
  case (Cons e S)
  obtain l i where e: "e = (l, i)" by (cases e)
  from Cons.prems e obtain st1 where
    "setBlameLines S L (st1, removeAll l prev) = Inr (st', prev')"
    by (auto split: sum.splits)
  from Cons.IH [OF this] show ?case
    by (auto simp: e removeAll_filter_not_eq intro!: filter_cong)
qed



lemma setBlameLines_grows:
  "setBlameLines S L (st, prev) = Inr (st', prev') \<Longrightarrow>
   log_grows st st' \<and> nextHandle st \<le> nextHandle st'"
proof (induction S arbitrary: st prev)
  case Nil
  then show ?case by (simp add: log_grows_refl)
next
  case (Cons e S)
  obtain l i where e: "e = (l, i)" by (cases e)
  from Cons.prems(1) e obtain st1 where
    s1: "setBlameLine l i L st = Inr st1" and
    r: "setBlameLines S L (st1, removeAll l prev) = Inr (st', prev')"
    by (auto split: sum.splits)
  have "log_grows st st1 \<and> nextHandle st \<le> nextHandle st1"
  proof (cases "map_of (bufferLineToDecoration st) l")
    case None
    then show ?thesis using setBlameLine_fresh(1,9) [OF s1 None] by simp
  next
    case (Some d')
    then show ?thesis using setBlameLine_present(1,9) [OF s1 Some] by simp
  qed
  with Cons.IH [OF r] show ?case using log_grows_trans by (meson le_trans)
qed

lemma setBlameLine_grows:
  assumes "setBlameLine l i L st = Inr st1"
  shows "log_grows st st1"
proof (cases "map_of (bufferLineToDecoration st) l")
  case None
  then show ?thesis using setBlameLine_fresh(1) [OF assms None] by simp
next
  case (Some d)
  then show ?thesis using setBlameLine_present(1) [OF assms Some] by simp
qed

lemma setBlameLines_split:
  assumes "setBlameLines ((l, i) # S) L (st, prev) = Inr (st', prev')"
  obtains st1 where "setBlameLine l i L st = Inr st1"
    and "setBlameLines S L (st1, removeAll l prev) = Inr (st', prev')"
    and "new_calls st st' = new_calls st st1 @ new_calls st1 st'"
proof -
  from assms obtain st1 where
    s1: "setBlameLine l i L st = Inr st1" and
    r: "setBlameLines S L (st1, removeAll l prev) = Inr (st', prev')"
    by (auto split: sum.splits)
  have "new_calls st st' = new_calls st st1 @ new_calls st1 st'"
    using log_grows_trans [OF setBlameLine_grows [OF s1]] setBlameLines_grows [OF r] by simp
  with s1 r that show thesis by blast
qed

lemma setBlameLine_quiet:
  assumes "setBlameLine l i L st = Inr st1"
  shows "destroyed_markers (new_calls st st1) = [] \<and> gutter_widths (new_calls st st1) = [] \<and>
         info_notices (new_calls st st1) = []"
proof (cases "map_of (bufferLineToDecoration st) l")
  case None
  then show ?thesis using setBlameLine_fresh(5,6,7) [OF assms None] by simp
next
  case (Some d)
  then show ?thesis using setBlameLine_present(5,6,7) [OF assms Some] by simp
qed

lemma setBlameLines_quiet:
  "setBlameLines S L (st, prev) = Inr (st', prev') \<Longrightarrow>
   destroyed_markers (new_calls st st') = [] \<and> gutter_widths (new_calls st st') = [] \<and>
   info_notices (new_calls st st') = []"
proof (induction S arbitrary: st prev)
  case Nil
  then show ?case by (simp add: log_grows_refl)
next
  case (Cons e S)
  obtain l i where e: "e = (l, i)" by (cases e)
  from Cons.prems [unfolded e] obtain st1 where
    s1: "setBlameLine l i L st = Inr st1" and
    r: "setBlameLines S L (st1, removeAll l prev) = Inr (st', prev')" and
    n: "new_calls st st' = new_calls st st1 @ new_calls st1 st'"
    by (rule setBlameLines_split)
  show ?case using setBlameLine_quiet [OF s1] Cons.IH [OF r] by (simp add: n reads_append)
qed








text \<open>No exception when the width is at least every label.\<close>

lemma createGutterItem_total:
  assumes "blameLength i \<le> L"
  shows "\<exists>item. createGutterItem c i L = Inr item"
  using assms
  by (simp add: createGutterItem_def string_repeat_def numSpaces_of_def blameLength_def Let_def
      split: if_splits)

lemma setBlameLines_total:
  "\<forall>e \<in> set S. blameLength (snd e) \<le> L \<Longrightarrow> \<exists>r. setBlameLines S L (st, prev) = Inr r"
proof (induction S arbitrary: st prev)
  case Nil
  then show ?case by simp
next
  case (Cons e S)
  obtain l i where e: "e = (l, i)" by (cases e)
  from Cons.prems e have "blameLength i \<le> L" by simp
  from createGutterItem_total [OF this] obtain item where
    "createGutterItem (changesetSpanClassName st) i L = Inr item" by blast
  then have "setBlameLine l i L st = Inr (decorateLine l item st)"
    by (simp add: setBlameLine_def)
  moreover from Cons.prems have "\<forall>e \<in> set S. blameLength (snd e) \<le> L" by simp
  ultimately show ?case using Cons.IH by (simp add: e)
qed

subsection \<open>The loop over the outdated lines\<close>

lemma removeBlameLine_absent:
  "map_of (bufferLineToDecoration st) l = None \<Longrightarrow> removeBlameLine l st = st"
  by (simp add: removeBlameLine_def)

lemma removeBlameLine_present:
  assumes "map_of (bufferLineToDecoration st) l = Some d"
  shows "hostLog (removeBlameLine l st) = hostLog st @ [MarkerDestroy (dec_marker d)]"
    and "bufferLineToDecoration (removeBlameLine l st) = AList.delete l (bufferLineToDecoration st)"
    and "nextHandle (removeBlameLine l st) = nextHandle st"
  using assms by (simp_all add: removeBlameLine_def)

lemma removeBlameLine_map:
  "bufferLineToDecoration (removeBlameLine l st) = AList.delete l (bufferLineToDecoration st)"
proof (cases "map_of (bufferLineToDecoration st) l")
  case None
  then have "l \<notin> fst ` set (bufferLineToDecoration st)" by (simp add: key_iff)
  then have "AList.delete l (bufferLineToDecoration st) = bufferLineToDecoration st"
    by (simp add: delete_id)
  then show ?thesis using None by (simp add: removeBlameLine_absent)
next
  case (Some d)
  then show ?thesis by (rule removeBlameLine_present(2))
qed


lemma removeBlameLine_grows: "log_grows st (removeBlameLine l st)"
proof (cases "map_of (bufferLineToDecoration st) l")
  case None
  then show ?thesis by (simp add: removeBlameLine_absent log_grows_refl)
next
  case (Some d)
  then show ?thesis using log_growsI [OF removeBlameLine_present(1) [OF Some]] by simp
qed

lemma removeBlameLine_calls:
  "new_calls st (removeBlameLine l st) =
     (case map_of (bufferLineToDecoration st) l of None \<Rightarrow> []
      | Some d \<Rightarrow> [MarkerDestroy (dec_marker d)])"
proof (cases "map_of (bufferLineToDecoration st) l")
  case None
  then show ?thesis by (simp add: removeBlameLine_absent log_grows_refl)
next
  case (Some d)
  then show ?thesis using log_growsI [OF removeBlameLine_present(1) [OF Some]] by simp
qed

lemma removeBlameLines_map:
  "bufferLineToDecoration (removeBlameLines ls st) =
     filter (\<lambda>e. fst e \<notin> set ls) (bufferLineToDecoration st)"
proof (induction ls arbitrary: st)
  case Nil
  then show ?case by simp
next
  case (Cons l ls)
  show ?case
    by (auto simp: Cons.IH removeBlameLine_map AList.delete_eq intro!: filter_cong)
qed


lemma removeBlameLines_grows: "log_grows st (removeBlameLines ls st)"
proof (induction ls arbitrary: st)
  case Nil
  then show ?case by (simp add: log_grows_refl)
next
  case (Cons l ls)
  show ?case using log_grows_trans [OF removeBlameLine_grows Cons.IH] by simp
qed

lemma removeBlameLines_calls:
  "new_calls st (removeBlameLines ls (removeBlameLine l st)) =
     new_calls st (removeBlameLine l st) @
     new_calls (removeBlameLine l st) (removeBlameLines ls (removeBlameLine l st))"
  using log_grows_trans [OF removeBlameLine_grows removeBlameLines_grows] by simp

lemma removeBlameLines_quiet:
  "created_lines (new_calls st (removeBlameLines ls st)) = [] \<and>
   created_decorations (new_calls st (removeBlameLines ls st)) = [] \<and>
   updated_decorations (new_calls st (removeBlameLines ls st)) = [] \<and>
   gutter_widths (new_calls st (removeBlameLines ls st)) = [] \<and>
   info_notices (new_calls st (removeBlameLines ls st)) = []"
proof (induction ls arbitrary: st)
  case Nil
  then show ?case by (simp add: log_grows_refl)
next
  case (Cons l ls)
  show ?case using Cons.IH [of "removeBlameLine l st"]
    by (simp add: removeBlameLines_calls reads_append removeBlameLine_calls split: option.splits)
qed



subsection \<open>The whole pass\<close>

lemma blameLength_le_longest':
  "e \<in> set S \<Longrightarrow> blameLength (snd e) \<le> longestBlame_of S"
  using blameLength_le_longest [of "fst e" "snd e" S] by simp

lemma updateBlame_shape:
  fixes S st
  defines "st1 \<equiv> (if S = [] then call [AddInfo NO_BLAME_MESSAGE] st else st)"
    and "out \<equiv> filter (\<lambda>l. l \<notin> fst ` set S) (map fst (bufferLineToDecoration st))"
  obtains st2 where
    "setBlameLines S (longestBlame_of S) (st1, map fst (bufferLineToDecoration st)) = Inr (st2, out)"
    and "updateBlame S st =
           Inr (updateGutterWidthToCharacterLength (longestBlame_of S) (removeBlameLines out st2))"
    and "new_calls st (updateGutterWidthToCharacterLength (longestBlame_of S)
                         (removeBlameLines out st2)) =
           new_calls st st1 @ new_calls st1 st2 @ new_calls st2 (removeBlameLines out st2) @
           [SetGutterWidth (number_toString (longestBlame_of S) @ ''ch'')]"
proof -
  have "\<forall>e \<in> set S. blameLength (snd e) \<le> longestBlame_of S"
    by (simp add: blameLength_le_longest')
  from setBlameLines_total [OF this] obtain st2 prev' where
    r: "setBlameLines S (longestBlame_of S) (st1, map fst (bufferLineToDecoration st)) =
          Inr (st2, prev')"
    by (metis surj_pair)
  have p: "prev' = out"
    using setBlameLines_prev [OF r] by (simp add: out_def)
  have m1: "bufferLineToDecoration st1 = bufferLineToDecoration st"
    by (simp add: st1_def)
  have u: "updateBlame S st =
      Inr (updateGutterWidthToCharacterLength (longestBlame_of S) (removeBlameLines out st2))"
  proof -
    have "updateBlame S st =
        (case setBlameLines S (longestBlame_of S) (st1, map fst (bufferLineToDecoration st1)) of
           Inl e \<Rightarrow> Inl e
         | Inr (st2, outdated) \<Rightarrow>
             Inr (updateGutterWidthToCharacterLength (longestBlame_of S)
                    (removeBlameLines outdated st2)))"
      by (simp only: updateBlame_def Let_def st1_def length_0_conv)
    then show ?thesis by (simp only: m1 r p sum.case prod.case)
  qed
  let ?st3 = "removeBlameLines out st2"
  let ?st4 = "updateGutterWidthToCharacterLength (longestBlame_of S) ?st3"
  have g01: "log_grows st st1"
  proof (cases "S = []")
    case True
    have "hostLog st1 = hostLog st @ [AddInfo NO_BLAME_MESSAGE]" by (simp add: st1_def True)
    from log_growsI [OF this] show ?thesis by simp
  next
    case False
    then show ?thesis by (simp add: st1_def log_grows_refl)
  qed
  have g12: "log_grows st1 st2" using setBlameLines_grows [OF r] by simp
  have g23: "log_grows st2 ?st3" by (rule removeBlameLines_grows)
  have g34: "log_grows ?st3 ?st4 \<and> new_calls ?st3 ?st4 =
      [SetGutterWidth (number_toString (longestBlame_of S) @ ''ch'')]"
    by (rule log_growsI) (simp add: updateGutterWidthToCharacterLength_def)
  have g02: "log_grows st st2 \<and> new_calls st st2 = new_calls st st1 @ new_calls st1 st2"
    using log_grows_trans [OF g01 g12] .
  have g03: "log_grows st ?st3 \<and> new_calls st ?st3 = new_calls st st2 @ new_calls st2 ?st3"
    using log_grows_trans [OF _ g23] g02 by blast
  have "new_calls st ?st4 = new_calls st ?st3 @ new_calls ?st3 ?st4"
    using log_grows_trans [of st ?st3 ?st4] g03 g34 by blast
  then have n: "new_calls st ?st4 =
           new_calls st st1 @ new_calls st1 st2 @ new_calls st2 ?st3 @
           [SetGutterWidth (number_toString (longestBlame_of S) @ ''ch'')]"
    using g02 g03 g34 by simp
  from that [OF r [unfolded p] u n] show thesis .
qed


lemma warning_notices_append:
  "warning_notices (xs @ ys) = warning_notices xs @ warning_notices ys"
  by (induction xs rule: warning_notices.induct) simp_all

lemma removeBlameLines_no_warning:
  "warning_notices (new_calls st (removeBlameLines ls st)) = []"
proof (induction ls arbitrary: st)
  case Nil
  then show ?case by (simp add: log_grows_refl)
next
  case (Cons l ls)
  show ?case using Cons.IH [of "removeBlameLine l st"]
    by (simp add: removeBlameLines_calls warning_notices_append removeBlameLine_calls
        split: option.splits)
qed


lemma example_gutter_reached:
  "fetchAndDisplayBlame_resolved [(0, alice)]
     (BlameGutter_new ''blame'' True False (Some ''a.js'') ''blame-decoration'' 0) =
   Inr example_gutter"
  by code_simp

lemma gutter_inv_new: "gutter_inv (BlameGutter_new name hasUrl dead path cls h)"
  by (simp add: gutter_inv_def BlameGutter_new_def Let_def fetchAndDisplayBlame_start_def
      addLoadingSpinner_def updateGutterWidthToPixelWidth_def)

lemma number_toString_12: "number_toString 12 = ''12''"
  by code_simp

section \<open>Claims: the blame gutter\<close>



lemma call_call: "call bs (call as st) = call (as @ bs) st"
  by (simp add: call_def)

lemma updateBlame_width:
  "\<exists>st'. updateBlame S st = Inr st' \<and>
        gutter_widths (new_calls st st') = [number_toString (longestBlame_of S) @ ''ch''] \<and>
        last (hostLog st') = SetGutterWidth (number_toString (longestBlame_of S) @ ''ch'')"
proof -
  define st1 where "st1 = (if S = [] then call [AddInfo NO_BLAME_MESSAGE] st else st)"
  define out where
    "out = filter (\<lambda>l. l \<notin> fst ` set S) (map fst (bufferLineToDecoration st))"
  obtain st2 where
    r: "setBlameLines S (longestBlame_of S) (st1, map fst (bufferLineToDecoration st)) =
          Inr (st2, out)"
    and u: "updateBlame S st =
           Inr (updateGutterWidthToCharacterLength (longestBlame_of S) (removeBlameLines out st2))"
    and n: "new_calls st (updateGutterWidthToCharacterLength (longestBlame_of S)
                         (removeBlameLines out st2)) =
           new_calls st st1 @ new_calls st1 st2 @ new_calls st2 (removeBlameLines out st2) @
           [SetGutterWidth (number_toString (longestBlame_of S) @ ''ch'')]"
    using updateBlame_shape [of S st] unfolding st1_def out_def by blast
  have w01: "gutter_widths (new_calls st st1) = []"
  proof (cases "S = []")
    case True
    have "hostLog st1 = hostLog st @ [AddInfo NO_BLAME_MESSAGE]" by (simp add: st1_def True)
    from log_growsI [OF this] show ?thesis by simp
  next
    case False
    then show ?thesis by (simp add: st1_def log_grows_refl)
  qed
  have "gutter_widths (new_calls st (updateGutterWidthToCharacterLength (longestBlame_of S)
          (removeBlameLines out st2))) = [number_toString (longestBlame_of S) @ ''ch'']"
    using w01 setBlameLines_quiet [OF r] removeBlameLines_quiet [of st2 out]
    by (simp add: n reads_append)
  moreover have "last (hostLog (updateGutterWidthToCharacterLength (longestBlame_of S)
          (removeBlameLines out st2))) = SetGutterWidth (number_toString (longestBlame_of S) @ ''ch'')"
    by (simp add: updateGutterWidthToCharacterLength_def)
  ultimately show ?thesis using u by simp
qed

lemma longestBlame_example: "longestBlame_of [(l1, alice), (l2, bob)] = 12"
  by (simp add: longestBlame_of_def blameLength_def alice_def bob_def truthy_def)

text \<open>
  C5. The width computed by the pass is the maximum, over the entries of the snapshot, of
  the author's length plus, when the changeset is truthy (the test of line 164), the
  changeset's length plus one; it is 0 for no entry. From any state and for any snapshot
  the pass returns normally, and the one width it sets, its last call, is that maximum in
  decimal followed by \<open>ch\<close>. For the entries \<open>alice\<close>/\<open>abc123\<close> and \<open>bob\<close>/\<open>null\<close>, on any two
  lines, the maximum is \<open>5 + 6 + 1 = 12\<close> and the width set is \<open>12ch\<close>.
\<close>

theorem longest_label_width:
  "longestBlame_of S =
     Max (insert 0 ((\<lambda>i. length (author i) +
                          (if truthy (changeset i) then length (the (changeset i)) + 1 else 0))
                    ` snd ` set S)) \<and>
   (\<exists>st'. updateBlame S st = Inr st' \<and>
         gutter_widths (new_calls st st') = [number_toString (longestBlame_of S) @ ''ch''] \<and>
         last (hostLog st') = SetGutterWidth (number_toString (longestBlame_of S) @ ''ch'')) \<and>
   longestBlame_of [(l1, alice), (l2, bob)] = length ''alice'' + length ''abc123'' + 1 \<and>
   longestBlame_of [(l1, alice), (l2, bob)] = 12 \<and>
   (\<exists>st'. updateBlame [(l1, alice), (l2, bob)] st = Inr st' \<and>
         gutter_widths (new_calls st st') = [''12ch''] \<and>
         last (hostLog st') = SetGutterWidth ''12ch'')"
proof -
  have f: "blameLength = (\<lambda>i. length (author i) +
                          (if truthy (changeset i) then length (the (changeset i)) + 1 else 0))"
    by (rule ext) (simp add: blameLength_def)
  have 1: "longestBlame_of S =
     Max (insert 0 ((\<lambda>i. length (author i) +
                          (if truthy (changeset i) then length (the (changeset i)) + 1 else 0))
                    ` snd ` set S))"
    unfolding longestBlame_of_def longestBlame_loop_Max f by (simp add: image_image)
  have 2: "longestBlame_of [(l1, alice), (l2, bob)] = 12" by (rule longestBlame_example)
  have 3: "\<exists>st'. updateBlame [(l1, alice), (l2, bob)] st = Inr st' \<and>
         gutter_widths (new_calls st st') = [''12ch''] \<and>
         last (hostLog st') = SetGutterWidth ''12ch''"
    using updateBlame_width [of "[(l1, alice), (l2, bob)]" st]
    by (simp add: longestBlame_example number_toString_12)
  have 4: "\<exists>st'. updateBlame S st = Inr st' \<and>
         gutter_widths (new_calls st st') = [number_toString (longestBlame_of S) @ ''ch''] \<and>
         last (hostLog st') = SetGutterWidth (number_toString (longestBlame_of S) @ ''ch'')"
    by (rule updateBlame_width)
  have 5: "longestBlame_of [(l1, alice), (l2, bob)] = length ''alice'' + length ''abc123'' + 1"
    using 2 by simp
  show ?thesis by (intro conjI 1 2 3 4 5)
qed

text \<open>
  C10. For every entry of a snapshot with a truthy changeset, \<open>numSpaces\<close> computed against
  the longest label of the same snapshot is at least 1: \<open>repeat\<close> does not throw, and the
  item is the author, at least one no-break space, and the changeset.
\<close>

theorem padding_at_least_one:
  assumes "(l, i) \<in> set S" and "truthy (changeset i)"
  shows "1 \<le> numSpaces_of i (longestBlame_of S) \<and>
         createGutterItem c i (longestBlame_of S) =
           Inr [Span [] [] (author i),
                TextNode (replicate (nat (numSpaces_of i (longestBlame_of S))) NBSP),
                Span c [(HG_CHANGESET_DATA_ATTRIBUTE, the (changeset i))] (the (changeset i))]"
proof -
  have "blameLength i \<le> longestBlame_of S" using assms(1) by (rule blameLength_le_longest)
  then have n: "1 \<le> numSpaces_of i (longestBlame_of S)"
    using assms(2) by (simp add: blameLength_def numSpaces_of_def)
  then show ?thesis
    using assms(2) by (simp add: createGutterItem_def string_repeat_def Let_def)
qed

theorem padding_at_least_one_witness:
  "(0, alice) \<in> set [(0, alice), (1, bob)] \<and> truthy (changeset alice) \<and>
   1 \<le> numSpaces_of alice (longestBlame_of [(0, alice), (1, bob)]) \<and>
   createGutterItem ''hash'' alice (longestBlame_of [(0, alice), (1, bob)]) =
     Inr [Span [] [] (author alice),
          TextNode (replicate (nat (numSpaces_of alice (longestBlame_of [(0, alice), (1, bob)]))) NBSP),
          Span ''hash'' [(HG_CHANGESET_DATA_ATTRIBUTE, the (changeset alice))] (the (changeset alice))]"
proof -
  have h1: "(0, alice) \<in> set [(0::nat, alice), (1, bob)]" by simp
  have h2: "truthy (changeset alice)" by (simp add: truthy_def alice_def)
  from padding_at_least_one [OF h1 h2, of "''hash''"] h1 h2 show ?thesis by simp
qed

lemma filter_all_keys: "filter (\<lambda>e. fst e \<notin> set (map fst m)) m = []"
  by (induction m) auto

lemma removeBlameLines_all_destroyed:
  "distinct (map fst m) \<Longrightarrow> bufferLineToDecoration st = m \<Longrightarrow>
   destroyed_markers (new_calls st (removeBlameLines (map fst m) st)) =
     map (dec_marker \<circ> snd) m"
proof (induction m arbitrary: st)
  case Nil
  then show ?case by (simp add: log_grows_refl)
next
  case (Cons e m)
  obtain k d where e: "e = (k, d)" by (cases e)
  let ?st1 = "removeBlameLine k st"
  have here: "map_of (bufferLineToDecoration st) k = Some d"
    using Cons.prems(2) e by simp
  have nk: "k \<notin> fst ` set m" using Cons.prems(1) e by simp
  have m1: "bufferLineToDecoration ?st1 = m"
    using Cons.prems(2) e nk by (simp add: removeBlameLine_map AList.delete_id)
  have d1: "distinct (map fst m)" using Cons.prems(1) by simp
  have c1: "new_calls st ?st1 = [MarkerDestroy (dec_marker d)]"
    using here by (simp add: removeBlameLine_calls)
  show ?case
    using Cons.IH [OF d1 m1]
    by (simp add: e removeBlameLines_calls c1 reads_append)
qed

text \<open>
  C7. From any state, the pass over an empty snapshot returns normally, shows the
  informational notice once and no warning, marks no line, and leaves the line-decoration
  map empty. When the instance satisfies its representation invariant, the markers
  destroyed by the pass are those of all the decorations that were in the map, each once,
  in the order of the map.
\<close>

theorem empty_snapshot_notice:
  "\<exists>st'. updateBlame [] st = Inr st' \<and>
        info_notices (new_calls st st') = [NO_BLAME_MESSAGE] \<and>
        warning_notices (new_calls st st') = [] \<and>
        bufferLineToDecoration st' = [] \<and>
        created_lines (new_calls st st') = [] \<and>
        (gutter_inv st \<longrightarrow>
           destroyed_markers (new_calls st st') =
             map (dec_marker \<circ> snd) (bufferLineToDecoration st))"
proof -
  let ?st1 = "call [AddInfo NO_BLAME_MESSAGE] st"
  let ?out = "map fst (bufferLineToDecoration st)"
  let ?st3 = "removeBlameLines ?out ?st1"
  let ?st' = "updateGutterWidthToCharacterLength (longestBlame_of []) ?st3"
  have u: "updateBlame [] st = Inr ?st'"
    by (simp add: updateBlame_def Let_def)
  have g01: "log_grows st ?st1 \<and> new_calls st ?st1 = [AddInfo NO_BLAME_MESSAGE]"
    by (rule log_growsI) simp
  have g13: "log_grows ?st1 ?st3" by (rule removeBlameLines_grows)
  have g34: "log_grows ?st3 ?st' \<and> new_calls ?st3 ?st' =
      [SetGutterWidth (number_toString (longestBlame_of []) @ ''ch'')]"
    by (rule log_growsI) (simp add: updateGutterWidthToCharacterLength_def)
  have g03: "log_grows st ?st3 \<and> new_calls st ?st3 = new_calls st ?st1 @ new_calls ?st1 ?st3"
    using log_grows_trans [OF _ g13] g01 by blast
  have "new_calls st ?st' = new_calls st ?st3 @ new_calls ?st3 ?st'"
    using log_grows_trans [of st ?st3 ?st'] g03 g34 by blast
  then have n: "new_calls st ?st' = [AddInfo NO_BLAME_MESSAGE] @ new_calls ?st1 ?st3 @
      [SetGutterWidth (number_toString (longestBlame_of []) @ ''ch'')]"
    using g01 g03 g34 by simp
  have i: "info_notices (new_calls st ?st') = [NO_BLAME_MESSAGE]"
    using removeBlameLines_quiet [of ?st1 ?out] by (simp add: n reads_append)
  have w: "warning_notices (new_calls st ?st') = []"
    using removeBlameLines_no_warning [of ?st1 ?out] by (simp add: n warning_notices_append)
  have m: "bufferLineToDecoration ?st' = []"
    by (simp add: updateGutterWidthToCharacterLength_def removeBlameLines_map filter_all_keys)
  have c: "created_lines (new_calls st ?st') = []"
    using removeBlameLines_quiet [of ?st1 ?out] by (simp add: n reads_append)
  have d: "gutter_inv st \<longrightarrow> destroyed_markers (new_calls st ?st') =
             map (dec_marker \<circ> snd) (bufferLineToDecoration st)"
  proof
    assume "gutter_inv st"
    then have dist: "distinct (map fst (bufferLineToDecoration st))"
      by (simp add: gutter_inv_def)
    have "bufferLineToDecoration ?st1 = bufferLineToDecoration st" by simp
    from removeBlameLines_all_destroyed [OF dist this]
    show "destroyed_markers (new_calls st ?st') =
             map (dec_marker \<circ> snd) (bufferLineToDecoration st)"
      by (simp add: n reads_append)
  qed
  show ?thesis by (rule exI [of _ ?st']) (intro conjI u i w m c d)
qed

theorem empty_snapshot_notice_witness:
  "gutter_inv example_gutter \<and>
   (\<exists>st'. updateBlame [] example_gutter = Inr st' \<and>
         info_notices (new_calls example_gutter st') = [NO_BLAME_MESSAGE] \<and>
         bufferLineToDecoration st' = [] \<and>
         destroyed_markers (new_calls example_gutter st') = [1])"
proof -
  have h: "gutter_inv example_gutter" by code_simp
  have e: "map (dec_marker \<circ> snd) (bufferLineToDecoration example_gutter) = [1]"
    by (simp add: example_gutter_def)
  from empty_snapshot_notice [of example_gutter] obtain st' where
    "updateBlame [] example_gutter = Inr st'"
    "info_notices (new_calls example_gutter st') = [NO_BLAME_MESSAGE]"
    "bufferLineToDecoration st' = []"
    "gutter_inv example_gutter \<longrightarrow> destroyed_markers (new_calls example_gutter st') =
       map (dec_marker \<circ> snd) (bufferLineToDecoration example_gutter)"
    by (elim exE conjE)
  with h e show ?thesis by (intro conjI exI [of _ st']) simp_all
qed

lemma cleanUpLoadingSpinner_isDestroyed:
  "isDestroyed (cleanUpLoadingSpinner st) = isDestroyed st"
  by (simp add: cleanUpLoadingSpinner_def Let_def split: option.splits)

lemma destroy_isDestroyed: "isDestroyed (destroy st)"
  by (simp add: destroy_def Let_def cleanUpLoadingSpinner_isDestroyed)

text \<open>
  C4. After \<open>destroy()\<close> the instance is marked destroyed, and the continuation of the
  fetch, whatever it resolved to, returns the state it found: no call is made, the map
  and hence the width are untouched.
\<close>

theorem destroyed_fetch_discarded:
  "isDestroyed (destroy st) \<and>
   fetchAndDisplayBlame_resolved newBlame (destroy st) = Inr (destroy st) \<and>
   (\<exists>st'. fetchAndDisplayBlame_resolved newBlame (destroy st) = Inr st' \<and>
         bufferLineToDecoration st' = bufferLineToDecoration (destroy st) \<and>
         new_calls (destroy st) st' = [])"
  by (simp add: fetchAndDisplayBlame_resolved_def destroy_isDestroyed log_grows_refl)

lemma cleanUpLoadingSpinner_calls:
  "\<exists>cs. hostLog (cleanUpLoadingSpinner st) = hostLog st @ cs \<and> destroyed_markers cs = [] \<and>
        gutter_destroys cs = 0"
  by (simp add: cleanUpLoadingSpinner_def Let_def split: option.splits)

lemma cleanUpLoadingSpinner_map:
  "bufferLineToDecoration (cleanUpLoadingSpinner st) = bufferLineToDecoration st"
  "editorIsDestroyed (cleanUpLoadingSpinner st) = editorIsDestroyed st"
  by (simp_all add: cleanUpLoadingSpinner_def Let_def split: option.splits)

lemma destroyed_markers_map:
  "destroyed_markers (map ((\<lambda>d. MarkerDestroy (dec_marker d)) \<circ> snd) m) =
     map (dec_marker \<circ> snd) m"
  by (induction m) simp_all

text \<open>
  The instance of the examples has one decoration; after \<open>destroy()\<close> the entry is still
  in the map.
\<close>

theorem destroy_keeps_map_counterexample:
  "bufferLineToDecoration (destroy example_gutter) = [(0, \<lparr>dec_id = 2, dec_marker = 1\<rparr>)] \<and>
   bufferLineToDecoration (destroy example_gutter) \<noteq> []"
  by code_simp

text \<open>
  C6, as the code has it. \<open>destroy()\<close> destroys the marker of every decoration in the
  map, in the order of the map, and leaves the map itself as it was: no entry is removed.
\<close>

theorem destroy_markers:
  "destroyed_markers (new_calls st (destroy st)) =
     map (dec_marker \<circ> snd) (bufferLineToDecoration st) \<and>
   bufferLineToDecoration (destroy st) = bufferLineToDecoration st"
proof -
  let ?st0 = "st\<lparr>isDestroyed := True\<rparr>"
  obtain cs where cs: "hostLog (cleanUpLoadingSpinner ?st0) = hostLog ?st0 @ cs"
    and q: "destroyed_markers cs = []"
    using cleanUpLoadingSpinner_calls [of ?st0] by blast
  have "hostLog (destroy st) = hostLog st @ (cs @
      (if editorIsDestroyed st then [] else [GutterDestroy]) @
      map (\<lambda>d. MarkerDestroy (dec_marker d)) (map snd (bufferLineToDecoration st)))"
    by (simp add: destroy_def Let_def cs cleanUpLoadingSpinner_map)
  from log_growsI [OF this] have "new_calls st (destroy st) = cs @
      (if editorIsDestroyed st then [] else [GutterDestroy]) @
      map (\<lambda>d. MarkerDestroy (dec_marker d)) (map snd (bufferLineToDecoration st))" by simp
  then have "destroyed_markers (new_calls st (destroy st)) =
     map (dec_marker \<circ> snd) (bufferLineToDecoration st)"
    using q by (simp add: reads_append destroyed_markers_map)
  moreover have "bufferLineToDecoration (destroy st) = bufferLineToDecoration st"
    by (simp add: destroy_def Let_def cleanUpLoadingSpinner_map)
  ultimately show ?thesis by simp
qed

text \<open>
  C8. A click on an element whose \<open>data-hg-changeset\<close> is a non-empty string, when the
  provider resolves the URL to \<open>null\<close>, makes exactly these calls after the request for the
  URL: one dismissable warning whose text contains the changeset, and the tracking event
  with the editor's path and the absent URL. Nothing is opened.
\<close>

theorem click_without_url:
  assumes "map_of dataset HG_CHANGESET_DATA_ATTRIBUTE = Some cs" and "cs \<noteq> []"
  shows "onClick (Some dataset) None st =
           call [GetUrlForRevision cs,
                 AddWarning (''No URL found for '' @ cs @ ''.'') True,
                 Track ''blame-gutter-click-revision'' (editorPath st) None] st \<and>
         warning_notices (new_calls st (onClick (Some dataset) None st)) =
           [(''No URL found for '' @ cs @ ''.'', True)] \<and>
         navigations (new_calls st (onClick (Some dataset) None st)) = []"
proof -
  have 1: "onClick (Some dataset) None st =
           call [GetUrlForRevision cs,
                 AddWarning (''No URL found for '' @ cs @ ''.'') True,
                 Track ''blame-gutter-click-revision'' (editorPath st) None] st"
    using assms by (simp add: onClick_def Let_def truthy_def call_call)
  have "hostLog (onClick (Some dataset) None st) = hostLog st @
           [GetUrlForRevision cs,
            AddWarning (''No URL found for '' @ cs @ ''.'') True,
            Track ''blame-gutter-click-revision'' (editorPath st) None]"
    by (simp only: 1 call_fields)
  from log_growsI [OF this] 1 show ?thesis by simp
qed

theorem click_without_url_witness:
  "map_of [(''hgChangeset'', ''abc123'')] HG_CHANGESET_DATA_ATTRIBUTE = Some ''abc123'' \<and>
   ''abc123'' \<noteq> [] \<and>
   warning_notices (new_calls example_gutter
       (onClick (Some [(''hgChangeset'', ''abc123'')]) None example_gutter)) =
     [(''No URL found for abc123.'', True)] \<and>
   navigations (new_calls example_gutter
       (onClick (Some [(''hgChangeset'', ''abc123'')]) None example_gutter)) = []"
proof -
  have h1: "map_of [(''hgChangeset'', ''abc123'')] HG_CHANGESET_DATA_ATTRIBUTE = Some ''abc123''"
    by (simp add: HG_CHANGESET_DATA_ATTRIBUTE_def)
  have h2: "''abc123'' \<noteq> []" by simp
  from click_without_url [OF h1 h2, of example_gutter, THEN conjunct2] h1 h2
  show ?thesis by simp
qed

section \<open>Proofs and claims: the diagnostics provider\<close>

lemma provider_call_fields [simp]:
  "providerLog (provider_call cs st) = providerLog st @ cs"
  "currentEventSubscription (provider_call cs st) = currentEventSubscription st"
  "providerNextHandle (provider_call cs st) = providerNextHandle st"
  "newUpdateSubscriberCallback (provider_call cs st) = newUpdateSubscriberCallback st"
  "newInvalidateSubscriberCallback (provider_call cs st) = newInvalidateSubscriberCallback st"
  "textEventCallback (provider_call cs st) = textEventCallback st"
  "grammarScopes (provider_call cs st) = grammarScopes st"
  "allGrammarScopes (provider_call cs st) = allGrammarScopes st"
  by (simp_all add: provider_call_def)

lemma active_snoc:
  "active_subscriptions (cs @ [c]) = subscription_step (active_subscriptions cs) c"
  by (simp add: active_subscriptions_def)

lemma update_hook_calls_append:
  "update_hook_calls (xs @ ys) = update_hook_calls xs @ update_hook_calls ys"
  by (induction xs rule: update_hook_calls.induct) simp_all

lemma invalidate_hook_calls_append:
  "invalidate_hook_calls (xs @ ys) = invalidate_hook_calls xs @ invalidate_hook_calls ys"
  by (induction xs rule: invalidate_hook_calls.induct) simp_all

lemma registrations_append:
  "registrations ev (xs @ ys) = registrations ev xs @ registrations ev ys"
  by (induction ev xs rule: registrations.induct) simp_all

lemma subscription_disposals_append:
  "subscription_disposals (xs @ ys) = subscription_disposals xs @ subscription_disposals ys"
  by (induction xs rule: subscription_disposals.induct) simp_all

lemma subscriptions_made_append:
  "subscriptions_made (xs @ ys) = subscriptions_made xs @ subscriptions_made ys"
  by (induction xs rule: subscriptions_made.induct) simp_all

lemmas provider_reads_append = update_hook_calls_append invalidate_hook_calls_append
  registrations_append subscription_disposals_append subscriptions_made_append

lemma take_snoc_cases:
  "take n (xs @ [c]) = (if n \<le> length xs then take n xs else xs @ [c])"
  by (cases "n \<le> length xs") simp_all

lemma no_overlap_Nil: "no_overlap []"
  by (simp add: no_overlap_def active_subscriptions_def)

lemma no_overlap_snoc:
  "no_overlap (xs @ [c]) =
   (no_overlap xs \<and> length (active_subscriptions (xs @ [c])) \<le> 1)"
proof
  assume a: "no_overlap (xs @ [c])"
  have "length (active_subscriptions (take n xs)) \<le> 1" for n
  proof (cases "n \<le> length xs")
    case True
    then show ?thesis using a [unfolded no_overlap_def, rule_format, of n]
      by (simp add: take_snoc_cases)
  next
    case False
    then show ?thesis using a [unfolded no_overlap_def, rule_format, of "length xs"]
      by (simp add: take_snoc_cases)
  qed
  moreover have "length (active_subscriptions (xs @ [c])) \<le> 1"
    using a [unfolded no_overlap_def, rule_format, of "Suc (length xs)"] by simp
  ultimately show "no_overlap xs \<and> length (active_subscriptions (xs @ [c])) \<le> 1"
    by (simp add: no_overlap_def)
next
  assume "no_overlap xs \<and> length (active_subscriptions (xs @ [c])) \<le> 1"
  then show "no_overlap (xs @ [c])"
    unfolding no_overlap_def by (simp only: take_snoc_cases) simp
qed

lemma disposeEventSubscription_inv:
  assumes "subscription_inv st"
  shows "subscription_inv (disposeEventSubscription st)"
    and "currentEventSubscription (disposeEventSubscription st) = None"
proof -
  show "currentEventSubscription (disposeEventSubscription st) = None"
    by (simp add: disposeEventSubscription_def split: option.splits)
  show "subscription_inv (disposeEventSubscription st)"
  proof (cases "currentEventSubscription st")
    case None
    then show ?thesis using assms by (simp add: disposeEventSubscription_def)
  next
    case (Some s)
    then show ?thesis using assms
      by (simp add: disposeEventSubscription_def subscription_inv_def current_list_def
          active_snoc no_overlap_snoc provider_reads_append)
  qed
qed

lemma disposeEventSubscription_fields:
  "allGrammarScopes (disposeEventSubscription st) = allGrammarScopes st"
  "grammarScopes (disposeEventSubscription st) = grammarScopes st"
  "textEventCallback (disposeEventSubscription st) = textEventCallback st"
  "newUpdateSubscriberCallback (disposeEventSubscription st) = newUpdateSubscriberCallback st"
  "newInvalidateSubscriberCallback (disposeEventSubscription st) =
     newInvalidateSubscriberCallback st"
  "providerNextHandle (disposeEventSubscription st) = providerNextHandle st"
  by (simp_all add: disposeEventSubscription_def split: option.splits)

lemma subscribeToTextEditorEvent_inv:
  assumes "subscription_inv st"
  shows "subscription_inv (subscribeToTextEditorEvent b st)"
    and "currentEventSubscription (subscribeToTextEditorEvent b st) = Some (providerNextHandle st)"
proof -
  let ?st1 = "disposeEventSubscription st"
  note i1 = disposeEventSubscription_inv [OF assms]
  show "currentEventSubscription (subscribeToTextEditorEvent b st) = Some (providerNextHandle st)"
    by (simp add: subscribeToTextEditorEvent_def Let_def disposeEventSubscription_fields)
  from i1 show "subscription_inv (subscribeToTextEditorEvent b st)"
    by (simp add: subscribeToTextEditorEvent_def Let_def subscription_inv_def current_list_def
        active_snoc no_overlap_snoc provider_reads_append)
qed

lemma subscription_inv_new:
  "subscription_inv (DiagnosticsProviderBase_new options handle)"
  "currentEventSubscription (DiagnosticsProviderBase_new options handle) = Some handle"
proof -
  let ?st0 = "\<lparr>textEventCallback = callbackOrNoop (opt_onTextEditorEvent options),
        newUpdateSubscriberCallback = callbackOrNoop (opt_onNewUpdateSubscriber options),
        newInvalidateSubscriberCallback = callbackOrNoop (opt_onNewInvalidateSubscriber options),
        grammarScopes = js_Set (opt_grammarScopes options),
        allGrammarScopes = js_Boolean (opt_enableForAllGrammars options),
        currentEventSubscription = None,
        providerNextHandle = handle,
        providerLog = []\<rparr>"
  have i0: "subscription_inv ?st0"
    by (simp add: subscription_inv_def current_list_def active_subscriptions_def no_overlap_Nil)
  from subscribeToTextEditorEvent_inv [OF i0]
  show "subscription_inv (DiagnosticsProviderBase_new options handle)"
    "currentEventSubscription (DiagnosticsProviderBase_new options handle) = Some handle"
    by (simp_all add: DiagnosticsProviderBase_new_def)
qed

lemma run_flags_inv:
  assumes "subscription_inv st" and "currentEventSubscription st \<noteq> None"
  shows "subscription_inv (provider_run st (map SetRunOnTheFly flags)) \<and>
         currentEventSubscription (provider_run st (map SetRunOnTheFly flags)) \<noteq> None"
  using assms
proof (induction flags arbitrary: st)
  case Nil
  then show ?case by (simp add: provider_run_def)
next
  case (Cons b flags)
  have "subscription_inv (setRunOnTheFly b st)"
    and "currentEventSubscription (setRunOnTheFly b st) \<noteq> None"
    using subscribeToTextEditorEvent_inv [OF Cons.prems(1), of b]
    by (simp_all add: setRunOnTheFly_def)
  from Cons.IH [OF this] show ?case by (simp add: provider_run_def)
qed

text \<open>
  C3. After the constructor and any sequence of \<open>setRunOnTheFly\<close> calls the instance holds a
  subscription, it is the one live subscription, every subscription made before it has
  been disposed, and at no point of the log were two subscriptions live: each was disposed
  before the next was made.
\<close>

theorem single_active_subscription:
  "\<exists>s. currentEventSubscription
          (provider_run (DiagnosticsProviderBase_new options handle) (map SetRunOnTheFly flags)) =
        Some s \<and>
       active_subscriptions (providerLog
          (provider_run (DiagnosticsProviderBase_new options handle) (map SetRunOnTheFly flags))) =
        [s] \<and>
       subscriptions_made (providerLog
          (provider_run (DiagnosticsProviderBase_new options handle) (map SetRunOnTheFly flags))) =
        subscription_disposals (providerLog
          (provider_run (DiagnosticsProviderBase_new options handle) (map SetRunOnTheFly flags)))
        @ [s] \<and>
       (\<forall>n. length (active_subscriptions (take n (providerLog
          (provider_run (DiagnosticsProviderBase_new options handle) (map SetRunOnTheFly flags)))))
          \<le> 1)"
proof -
  let ?st = "provider_run (DiagnosticsProviderBase_new options handle) (map SetRunOnTheFly flags)"
  have "currentEventSubscription (DiagnosticsProviderBase_new options handle) \<noteq> None"
    by (simp add: subscription_inv_new(2))
  from run_flags_inv [OF subscription_inv_new(1) this, of flags]
  have i: "subscription_inv ?st" and c: "currentEventSubscription ?st \<noteq> None" by simp_all
  from c obtain s where s: "currentEventSubscription ?st = Some s" by blast
  with i show ?thesis by (simp add: subscription_inv_def current_list_def no_overlap_def)
qed

lemma onMessageUpdate_log:
  "providerLog (snd (onMessageUpdate cb st)) =
     providerLog st @ [EmitterOn UPDATE_EVENT cb (providerNextHandle st),
                       InvokeNewUpdateSubscriber (newUpdateSubscriberCallback st) cb]"
  by (simp add: onMessageUpdate_def Let_def)

lemma onMessageInvalidation_log:
  "providerLog (snd (onMessageInvalidation cb st)) =
     providerLog st @ [EmitterOn INVALIDATE_EVENT cb (providerNextHandle st),
                       InvokeNewInvalidateSubscriber (newInvalidateSubscriberCallback st) cb]"
  by (simp add: onMessageInvalidation_def Let_def)

lemma events_differ: "UPDATE_EVENT \<noteq> INVALIDATE_EVENT"
  by (simp add: UPDATE_EVENT_def INVALIDATE_EVENT_def)

lemma subscribeToTextEditorEvent_hooks:
  "update_hook_calls (providerLog (subscribeToTextEditorEvent b st)) =
     update_hook_calls (providerLog st)"
  "invalidate_hook_calls (providerLog (subscribeToTextEditorEvent b st)) =
     invalidate_hook_calls (providerLog st)"
  "registrations ev (providerLog (subscribeToTextEditorEvent b st)) =
     registrations ev (providerLog st)"
  "newUpdateSubscriberCallback (subscribeToTextEditorEvent b st) = newUpdateSubscriberCallback st"
  "newInvalidateSubscriberCallback (subscribeToTextEditorEvent b st) =
     newInvalidateSubscriberCallback st"
  by (simp_all add: subscribeToTextEditorEvent_def Let_def disposeEventSubscription_def
      provider_reads_append split: option.splits)

lemma provider_step_hooks:
  assumes "op \<noteq> Dispose"
  shows "update_hook_calls (providerLog (provider_step st op)) =
           update_hook_calls (providerLog st) @ [cb. OnMessageUpdate cb \<leftarrow> [op]]"
    and "invalidate_hook_calls (providerLog (provider_step st op)) =
           invalidate_hook_calls (providerLog st) @ [cb. OnMessageInvalidation cb \<leftarrow> [op]]"
    and "registrations UPDATE_EVENT (providerLog (provider_step st op)) =
           registrations UPDATE_EVENT (providerLog st) @ [cb. OnMessageUpdate cb \<leftarrow> [op]]"
    and "registrations INVALIDATE_EVENT (providerLog (provider_step st op)) =
           registrations INVALIDATE_EVENT (providerLog st) @
           [cb. OnMessageInvalidation cb \<leftarrow> [op]]"
    and "newUpdateSubscriberCallback (provider_step st op) = newUpdateSubscriberCallback st"
    and "newInvalidateSubscriberCallback (provider_step st op) =
           newInvalidateSubscriberCallback st"
  using assms events_differ events_differ [symmetric]
  by (cases op; simp add: setRunOnTheFly_def subscribeToTextEditorEvent_hooks
      publishMessageUpdate_def publishMessageInvalidation_def onMessageUpdate_def
      onMessageInvalidation_def Let_def provider_reads_append)+

lemma provider_run_hooks:
  assumes "Dispose \<notin> set ops"
  shows "update_hook_calls (providerLog (provider_run st ops)) =
           update_hook_calls (providerLog st) @ [cb. OnMessageUpdate cb \<leftarrow> ops] \<and>
         invalidate_hook_calls (providerLog (provider_run st ops)) =
           invalidate_hook_calls (providerLog st) @ [cb. OnMessageInvalidation cb \<leftarrow> ops] \<and>
         registrations UPDATE_EVENT (providerLog (provider_run st ops)) =
           registrations UPDATE_EVENT (providerLog st) @ [cb. OnMessageUpdate cb \<leftarrow> ops] \<and>
         registrations INVALIDATE_EVENT (providerLog (provider_run st ops)) =
           registrations INVALIDATE_EVENT (providerLog st) @
           [cb. OnMessageInvalidation cb \<leftarrow> ops] \<and>
         newUpdateSubscriberCallback (provider_run st ops) = newUpdateSubscriberCallback st \<and>
         newInvalidateSubscriberCallback (provider_run st ops) =
           newInvalidateSubscriberCallback st"
  using assms
proof (induction ops arbitrary: st)
  case Nil
  then show ?case by (simp add: provider_run_def)
next
  case (Cons op ops)
  then have n: "op \<noteq> Dispose" and r: "Dispose \<notin> set ops" by auto
  have unfold: "provider_run st (op # ops) = provider_run (provider_step st op) ops"
    by (simp add: provider_run_def)
  show ?case
    unfolding unfold
    using Cons.IH [OF r, of "provider_step st op"] provider_step_hooks [OF n, of st]
    by simp
qed

lemma new_log_hooks:
  "update_hook_calls (providerLog (DiagnosticsProviderBase_new options handle)) = []"
  "invalidate_hook_calls (providerLog (DiagnosticsProviderBase_new options handle)) = []"
  "registrations ev (providerLog (DiagnosticsProviderBase_new options handle)) = []"
  "newUpdateSubscriberCallback (DiagnosticsProviderBase_new options handle) =
     callbackOrNoop (opt_onNewUpdateSubscriber options)"
  "newInvalidateSubscriberCallback (DiagnosticsProviderBase_new options handle) =
     callbackOrNoop (opt_onNewInvalidateSubscriber options)"
  by (simp_all add: DiagnosticsProviderBase_new_def subscribeToTextEditorEvent_hooks)

text \<open>
  Two registrations on the update channel call its hook twice, and the log of one
  registration has the call of \<open>Emitter.on\<close> before the call of the hook.
\<close>

theorem hook_every_registration_counterexample:
  "update_hook_calls (providerLog
     (provider_run (DiagnosticsProviderBase_new example_options 0)
        [OnMessageUpdate 1, OnMessageUpdate 2])) = [1, 2] \<and>
   providerLog (provider_run (DiagnosticsProviderBase_new example_options 0) [OnMessageUpdate 1]) =
     [OnFileChange [''source.js''] (Bound 5) 0, EmitterOn ''update'' 1 1,
      InvokeNewUpdateSubscriber (Bound 6) 1]"
  by code_simp

text \<open>
  C2, as the code has it. On an instance that has not been disposed, after any run of
  calls, the hook of each channel has been called once for every registration on that
  channel, with the registered callback, in the order of the registrations; and a further
  registration calls \<open>Emitter.on\<close> first and the hook after it.
\<close>

theorem hook_on_each_registration:
  assumes "Dispose \<notin> set ops"
  shows
    "update_hook_calls (providerLog
       (provider_run (DiagnosticsProviderBase_new options handle) ops)) =
       [cb. OnMessageUpdate cb \<leftarrow> ops] \<and>
     invalidate_hook_calls (providerLog
       (provider_run (DiagnosticsProviderBase_new options handle) ops)) =
       [cb. OnMessageInvalidation cb \<leftarrow> ops] \<and>
     registrations UPDATE_EVENT (providerLog
       (provider_run (DiagnosticsProviderBase_new options handle) ops)) =
       [cb. OnMessageUpdate cb \<leftarrow> ops] \<and>
     registrations INVALIDATE_EVENT (providerLog
       (provider_run (DiagnosticsProviderBase_new options handle) ops)) =
       [cb. OnMessageInvalidation cb \<leftarrow> ops] \<and>
     providerLog (snd (onMessageUpdate cb
       (provider_run (DiagnosticsProviderBase_new options handle) ops))) =
       providerLog (provider_run (DiagnosticsProviderBase_new options handle) ops) @
       [EmitterOn UPDATE_EVENT cb
          (providerNextHandle (provider_run (DiagnosticsProviderBase_new options handle) ops)),
        InvokeNewUpdateSubscriber (callbackOrNoop (opt_onNewUpdateSubscriber options)) cb] \<and>
     providerLog (snd (onMessageInvalidation cb
       (provider_run (DiagnosticsProviderBase_new options handle) ops))) =
       providerLog (provider_run (DiagnosticsProviderBase_new options handle) ops) @
       [EmitterOn INVALIDATE_EVENT cb
          (providerNextHandle (provider_run (DiagnosticsProviderBase_new options handle) ops)),
        InvokeNewInvalidateSubscriber (callbackOrNoop (opt_onNewInvalidateSubscriber options)) cb]"
  using provider_run_hooks [OF assms, of "DiagnosticsProviderBase_new options handle"]
  by (simp add: new_log_hooks onMessageUpdate_log onMessageInvalidation_log)

theorem hook_on_each_registration_witness:
  "Dispose \<notin> set [OnMessageUpdate 1, SetRunOnTheFly False, OnMessageUpdate 2,
                    OnMessageInvalidation 3] \<and>
   update_hook_calls (providerLog
     (provider_run (DiagnosticsProviderBase_new example_options 0)
        [OnMessageUpdate 1, SetRunOnTheFly False, OnMessageUpdate 2, OnMessageInvalidation 3])) =
     [1, 2] \<and>
   invalidate_hook_calls (providerLog
     (provider_run (DiagnosticsProviderBase_new example_options 0)
        [OnMessageUpdate 1, SetRunOnTheFly False, OnMessageUpdate 2, OnMessageInvalidation 3])) =
     [3]"
proof -
  have h: "Dispose \<notin> set [OnMessageUpdate 1, SetRunOnTheFly False, OnMessageUpdate 2,
                    OnMessageInvalidation 3]" by simp
  from hook_on_each_registration [OF h, of example_options 0] h show ?thesis by simp
qed

lemma dispose_current: "currentEventSubscription (dispose p) = None"
  by (simp add: dispose_def disposeEventSubscription_def split: option.splits)

lemma disposeEventSubscription_none:
  "currentEventSubscription p = None \<Longrightarrow> disposeEventSubscription p = p"
  by (simp add: disposeEventSubscription_def)

lemma dispose_twice:
  "dispose (dispose p) = provider_call [EmitterDispose, DisposablesDispose] (dispose p)"
  using dispose_current [of p]
  by (simp add: dispose_def [of "dispose p"] disposeEventSubscription_none)

lemma cleanUpLoadingSpinner_done:
  "\<not> loadingSpinnerIsPending st \<Longrightarrow> \<not> loadingSpinnerDiv st \<Longrightarrow> cleanUpLoadingSpinner st = st"
  by (simp add: cleanUpLoadingSpinner_def)

lemma cleanUpLoadingSpinner_clean:
  "\<not> loadingSpinnerIsPending (cleanUpLoadingSpinner st)"
  "\<not> loadingSpinnerDiv (cleanUpLoadingSpinner st)"
  by (simp_all add: cleanUpLoadingSpinner_def Let_def split: option.splits)

lemma destroy_fields:
  "\<not> loadingSpinnerIsPending (destroy st)"
  "\<not> loadingSpinnerDiv (destroy st)"
  "editorIsDestroyed (destroy st) = editorIsDestroyed st"
  "bufferLineToDecoration (destroy st) = bufferLineToDecoration st"
  by (simp_all add: destroy_def Let_def cleanUpLoadingSpinner_clean cleanUpLoadingSpinner_map)

lemma destroy_twice:
  "destroy (destroy st) =
     call ((if editorIsDestroyed st then [] else [GutterDestroy]) @
           map (\<lambda>e. MarkerDestroy (dec_marker (snd e))) (bufferLineToDecoration st))
       (destroy st)"
proof -
  let ?d = "destroy st"
  have same: "?d\<lparr>isDestroyed := True\<rparr> = ?d"
    using destroy_isDestroyed [of st] by simp
  have clean: "cleanUpLoadingSpinner ?d = ?d"
    by (rule cleanUpLoadingSpinner_done) (simp_all add: destroy_fields)
  show ?thesis
    by (simp add: destroy_def [of ?d] Let_def same clean destroy_fields call_call comp_def)
qed

text \<open>
  On the instance of the examples, whose editor is not destroyed, the second \<open>destroy()\<close>
  calls \<open>gutter.destroy()\<close> and the marker's \<open>destroy()\<close> again.
\<close>

theorem second_destroy_counterexample:
  "gutter_destroys (hostLog (destroy example_gutter)) = 1 \<and>
   gutter_destroys (hostLog (destroy (destroy example_gutter))) = 2 \<and>
   new_calls (destroy example_gutter) (destroy (destroy example_gutter)) =
     [GutterDestroy, MarkerDestroy 1]"
  by code_simp

text \<open>
  C9, as the code has it. A second \<open>dispose()\<close> changes no field of the provider and
  disposes no subscription (the first call left none); it repeats the calls that dispose
  the emitter and the composite disposable. A second \<open>destroy()\<close> changes no field of the
  gutter, and repeats the calls that release: \<open>gutter.destroy()\<close> when the editor is not
  destroyed, and \<open>destroy()\<close> on the marker of every decoration in the map.
\<close>

theorem second_dispose_and_destroy:
  "dispose (dispose p) = provider_call [EmitterDispose, DisposablesDispose] (dispose p) \<and>
   currentEventSubscription (dispose p) = None \<and>
   subscription_disposals (providerLog (dispose (dispose p))) =
     subscription_disposals (providerLog (dispose p)) \<and>
   destroy (destroy st) =
     call ((if editorIsDestroyed st then [] else [GutterDestroy]) @
           map (\<lambda>e. MarkerDestroy (dec_marker (snd e))) (bufferLineToDecoration st))
       (destroy st)"
  by (simp add: dispose_twice dispose_current destroy_twice provider_reads_append)

end
